theory Spec2Isabelle
  imports Complex_Main "HOL-Library.Word" "HOL-Library.Monad_Syntax"
begin

section \<open>JavaScript strings\<close>

text \<open>
  A JavaScript string is a sequence of UTF-16 code units. String literals of the source
  are written with \<open>lit\<close>, which reads an ASCII literal as code units.
\<close>

type_synonym unit16 = "16 word"
type_synonym jsstring = "unit16 list"

definition lit :: "string \<Rightarrow> jsstring" where
  "lit s = map of_char s"

text \<open>
  Template literals print a count in decimal. \<open>Math.round\<close> rounds half-way cases up.
  The counts of one page are far below \<open>2 ^ 53\<close>, where JavaScript numbers are exact,
  so counts are natural numbers and the score is an integer.
\<close>

fun showNat :: "nat \<Rightarrow> jsstring" where
  "showNat n = (if n < 10 then [of_nat (48 + n)]
                else showNat (n div 10) @ [of_nat (48 + n mod 10)])"

declare showNat.simps [simp del]

definition showInt :: "int \<Rightarrow> jsstring" where
  "showInt i = (if i < 0 then lit ''-'' @ showNat (nat (- i)) else showNat (nat i))"

definition math_round :: "rat \<Rightarrow> int" where
  "math_round x = \<lfloor>x + 1 / 2\<rfloor>"

text \<open>
  \<open>Buffer.byteLength(s, 'utf8')\<close>: one byte below U+0080, two below U+0800, four for a
  surrogate pair, three for every other code unit (a lone surrogate is encoded as
  U+FFFD).
\<close>

definition isHighSurrogate :: "unit16 \<Rightarrow> bool" where
  "isHighSurrogate c = (0xD800 \<le> c \<and> c \<le> 0xDBFF)"

definition isLowSurrogate :: "unit16 \<Rightarrow> bool" where
  "isLowSurrogate c = (0xDC00 \<le> c \<and> c \<le> 0xDFFF)"

fun byteLength :: "jsstring \<Rightarrow> nat" where
  "byteLength [] = 0"
| "byteLength [c] = (if c < 0x80 then 1 else if c < 0x800 then 2 else 3)"
| "byteLength (c # d # cs) =
     (if c < 0x80 then 1 + byteLength (d # cs)
      else if c < 0x800 then 2 + byteLength (d # cs)
      else if isHighSurrogate c \<and> isLowSurrogate d then 4 + byteLength cs
      else 3 + byteLength (d # cs))"

text \<open>
  \<open>toLowerCase\<close> on the ASCII letters. The mappings of Unicode beyond ASCII are not
  modelled: none of them produces a final code unit among \<open>.\<close>, \<open>p\<close>, \<open>n\<close>, \<open>g\<close>,
  \<open>j\<close>, \<open>e\<close>, which is all that \<open>endsWith\<close> looks at below.
\<close>

definition toLowerCase :: "jsstring \<Rightarrow> jsstring" where
  "toLowerCase s = map (\<lambda>c. if 0x41 \<le> c \<and> c \<le> 0x5A then c + 0x20 else c) s"

definition endsWith :: "jsstring \<Rightarrow> jsstring \<Rightarrow> bool" where
  "endsWith s suf = (length suf \<le> length s \<and> drop (length s - length suf) s = suf)"

text \<open>
  \<open>parseInt(ds, 10)\<close> on a string of decimal digits, as \<open>(\d+)\<close> captures it. For a
  number too long to be exact JavaScript rounds it, which leaves the comparison with
  1000 as it is.
\<close>

definition parseInt :: "jsstring \<Rightarrow> nat" where
  "parseInt ds = foldl (\<lambda>n c. 10 * n + (unat c - 48)) 0 ds"

section \<open>Regular expressions\<close>

text \<open>
  The matcher follows the backtracking semantics of ECMAScript regular expressions. A
  matcher state is the code unit before the current position (\<open>None\<close> at the start of
  the input) and the rest of the input. An atom that can match in one way only maps a
  state to the state after it; a quantifier takes the rest of the pattern as a
  continuation, so that it can backtrack.

  All patterns of the source carry the flag \<open>i\<close> and none carries \<open>u\<close>: a pattern
  character matches an input code unit when their canonical forms agree. Every pattern
  character of the source is ASCII, and \<open>Canonicalize\<close> never maps a code unit from
  U+0080 on to an ASCII one, so upper-casing the ASCII letters decides every comparison.
\<close>

type_synonym mstate = "unit16 option \<times> jsstring"

definition canon :: "unit16 \<Rightarrow> unit16" where
  "canon c = (if 0x61 \<le> c \<and> c \<le> 0x7A then c - 0x20 else c)"

definition isWordChar :: "unit16 \<Rightarrow> bool" where
  "isWordChar c = ((0x61 \<le> c \<and> c \<le> 0x7A) \<or> (0x41 \<le> c \<and> c \<le> 0x5A) \<or>
                   (0x30 \<le> c \<and> c \<le> 0x39) \<or> c = 0x5F)"

definition isDigit :: "unit16 \<Rightarrow> bool" where
  "isDigit c = (0x30 \<le> c \<and> c \<le> 0x39)"

definition isSpace :: "unit16 \<Rightarrow> bool" where
  "isSpace c = ((0x09 \<le> c \<and> c \<le> 0x0D) \<or> c = 0x20 \<or> c = 0xA0 \<or> c = 0x1680 \<or>
                (0x2000 \<le> c \<and> c \<le> 0x200A) \<or> c = 0x2028 \<or> c = 0x2029 \<or>
                c = 0x202F \<or> c = 0x205F \<or> c = 0x3000 \<or> c = 0xFEFF)"

definition isQuote :: "unit16 \<Rightarrow> bool" where
  "isQuote c = (c = 0x22 \<or> c = 0x27)"

definition notQuote :: "unit16 \<Rightarrow> bool" where
  "notQuote c = (\<not> isQuote c)"

definition notGt :: "unit16 \<Rightarrow> bool" where
  "notGt c = (c \<noteq> 0x3E)"

definition anyChar :: "unit16 \<Rightarrow> bool" where
  "anyChar c = True"

text \<open>A single pattern character, a literal, a character class, and \<open>\b\<close>.\<close>

fun chr_ci :: "unit16 \<Rightarrow> mstate \<Rightarrow> mstate option" where
  "chr_ci p (prev, []) = None"
| "chr_ci p (prev, c # cs) = (if canon c = canon p then Some (Some c, cs) else None)"

fun lit_ci :: "jsstring \<Rightarrow> mstate \<Rightarrow> mstate option" where
  "lit_ci [] st = Some st"
| "lit_ci (p # ps) st = (case chr_ci p st of None \<Rightarrow> None | Some st' \<Rightarrow> lit_ci ps st')"

fun cls :: "(unit16 \<Rightarrow> bool) \<Rightarrow> mstate \<Rightarrow> mstate option" where
  "cls P (prev, []) = None"
| "cls P (prev, c # cs) = (if P c then Some (Some c, cs) else None)"

fun wordBefore :: "mstate \<Rightarrow> bool" where
  "wordBefore (None, s) = False"
| "wordBefore (Some c, s) = isWordChar c"

fun wordAfter :: "mstate \<Rightarrow> bool" where
  "wordAfter (prev, []) = False"
| "wordAfter (prev, c # cs) = isWordChar c"

definition wordB :: "mstate \<Rightarrow> mstate option" where
  "wordB st = (if wordBefore st \<noteq> wordAfter st then Some st else None)"

text \<open>
  The quantifiers. \<open>greedy P k\<close> is \<open>[P]*\<close> followed by the rest \<open>k\<close> of the pattern:
  it takes as many code units as it can and gives one back at a time while the rest
  fails. \<open>lazy P k\<close> is \<open>[P]*?\<close>: it tries the rest first and takes one more code unit
  each time the rest fails. The continuation receives the text the quantifier matched.
  \<open>greedy1\<close> is \<open>[P]+\<close>.
\<close>

fun greedy :: "(unit16 \<Rightarrow> bool) \<Rightarrow> (jsstring \<Rightarrow> mstate \<Rightarrow> 'a option) \<Rightarrow> mstate \<Rightarrow> 'a option" where
  "greedy P k (prev, []) = k [] (prev, [])"
| "greedy P k (prev, c # cs) =
     (if P c then
        (case greedy P (\<lambda>w. k (c # w)) (Some c, cs) of
           Some r \<Rightarrow> Some r
         | None \<Rightarrow> k [] (prev, c # cs))
      else k [] (prev, c # cs))"

fun greedy1 :: "(unit16 \<Rightarrow> bool) \<Rightarrow> (jsstring \<Rightarrow> mstate \<Rightarrow> 'a option) \<Rightarrow> mstate \<Rightarrow> 'a option" where
  "greedy1 P k (prev, []) = None"
| "greedy1 P k (prev, c # cs) =
     (if P c then greedy P (\<lambda>w. k (c # w)) (Some c, cs) else None)"

fun lazy :: "(unit16 \<Rightarrow> bool) \<Rightarrow> (jsstring \<Rightarrow> mstate \<Rightarrow> 'a option) \<Rightarrow> mstate \<Rightarrow> 'a option" where
  "lazy P k (prev, []) = k [] (prev, [])"
| "lazy P k (prev, c # cs) =
     (case k [] (prev, c # cs) of
        Some r \<Rightarrow> Some r
      | None \<Rightarrow> (if P c then lazy P (\<lambda>w. k (c # w)) (Some c, cs) else None))"

text \<open>
  \<open>exec\<close> is a search without the flag \<open>g\<close> (\<open>RegExp.prototype.test\<close>,
  \<open>String.prototype.match\<close>): the first position, from the left, where the pattern
  matches. \<open>matchAll\<close> is the search with the flag \<open>g\<close>: after a match it goes on where
  the match ended, and one code unit further when the match was empty.
\<close>

fun exec :: "(mstate \<Rightarrow> 'a option) \<Rightarrow> mstate \<Rightarrow> 'a option" where
  "exec m (prev, []) = m (prev, [])"
| "exec m (prev, c # cs) =
     (case m (prev, c # cs) of Some r \<Rightarrow> Some r | None \<Rightarrow> exec m (Some c, cs))"

definition test :: "(mstate \<Rightarrow> 'a option) \<Rightarrow> jsstring \<Rightarrow> bool" where
  "test m s = (exec m (None, s) \<noteq> None)"

function matchAllFrom :: "(mstate \<Rightarrow> ('a \<times> mstate) option) \<Rightarrow> mstate \<Rightarrow> 'a list" where
  "matchAllFrom m (prev, s) =
     (case m (prev, s) of
        Some (r, (prev', rest)) \<Rightarrow>
          r # (if length rest < length s then matchAllFrom m (prev', rest)
               else (case s of [] \<Rightarrow> [] | c # cs \<Rightarrow> matchAllFrom m (Some c, cs)))
      | None \<Rightarrow> (case s of [] \<Rightarrow> [] | c # cs \<Rightarrow> matchAllFrom m (Some c, cs)))"
  by pat_completeness auto
termination
  by (relation "measure (\<lambda>(m, st). length (snd st))") auto

declare matchAllFrom.simps [simp del]

definition matchAll :: "(mstate \<Rightarrow> ('a \<times> mstate) option) \<Rightarrow> jsstring \<Rightarrow> 'a list" where
  "matchAll m s = matchAllFrom m (None, s)"

section \<open>The patterns of the source\<close>

text \<open>
  \<^verbatim>\<open>/<script\b([^>]*)>([\s\S]*?)<\/script>/gi\<close> with its two groups, and
  \<^verbatim>\<open>/<img\b([^>]*?)>/gi\<close> with its group. Both also return the state after the match,
  which \<open>matchAll\<close> continues from.
\<close>

definition rx_script :: "mstate \<Rightarrow> ((jsstring \<times> jsstring) \<times> mstate) option" where
  "rx_script st =
     lit_ci (lit ''<script'') st \<bind> wordB \<bind>
     greedy notGt (\<lambda>attrs st. chr_ci 0x3E st \<bind>
       lazy anyChar (\<lambda>body st. lit_ci (lit ''</script>'') st \<bind>
         (\<lambda>st. Some ((attrs, body), st))))"

definition rx_img :: "mstate \<Rightarrow> (jsstring \<times> mstate) option" where
  "rx_img st =
     lit_ci (lit ''<img'') st \<bind> wordB \<bind>
     lazy notGt (\<lambda>attrs st. chr_ci 0x3E st \<bind> (\<lambda>st. Some (attrs, st)))"

text \<open>\<^verbatim>\<open>/\bdefer\b/i\<close> and \<^verbatim>\<open>/\basync\b/i\<close>.\<close>

definition rx_word :: "jsstring \<Rightarrow> mstate \<Rightarrow> mstate option" where
  "rx_word w st = wordB st \<bind> lit_ci w \<bind> wordB"

definition rx_defer :: "mstate \<Rightarrow> mstate option" where
  "rx_defer = rx_word (lit ''defer'')"

definition rx_async :: "mstate \<Rightarrow> mstate option" where
  "rx_async = rx_word (lit ''async'')"

text \<open>
  The attribute patterns share the prefix \<^verbatim>\<open>\bNAME\s*=\s*["']\<close>; \<open>k\<close> is what follows
  the opening quote.
  \<^item> \<open>rx_src\<close> is \<^verbatim>\<open>/\bsrc\s*=\s*["']([^"']+)["']/i\<close>; the pattern that the script
    loop tests is the same without the group.
  \<^item> \<open>rx_loading\<close> is \<^verbatim>\<open>/\bloading\s*=\s*["']lazy["']/i\<close>.
  \<^item> \<open>rx_width\<close> is \<^verbatim>\<open>/\bwidth\s*=\s*["'](\d+)["']/i\<close>, \<open>rx_height\<close> likewise.
\<close>

definition rx_attr :: "jsstring \<Rightarrow> (mstate \<Rightarrow> 'a option) \<Rightarrow> mstate \<Rightarrow> 'a option" where
  "rx_attr name k st =
     wordB st \<bind> lit_ci name \<bind>
     greedy isSpace (\<lambda>_ st. chr_ci 0x3D st \<bind>
       greedy isSpace (\<lambda>_ st. cls isQuote st \<bind> k))"

definition rx_src :: "mstate \<Rightarrow> jsstring option" where
  "rx_src = rx_attr (lit ''src'')
     (greedy1 notQuote (\<lambda>v st. cls isQuote st \<bind> (\<lambda>_. Some v)))"

definition rx_loading :: "mstate \<Rightarrow> mstate option" where
  "rx_loading = rx_attr (lit ''loading'') (\<lambda>st. lit_ci (lit ''lazy'') st \<bind> cls isQuote)"

definition rx_width :: "mstate \<Rightarrow> jsstring option" where
  "rx_width = rx_attr (lit ''width'')
     (greedy1 isDigit (\<lambda>v st. cls isQuote st \<bind> (\<lambda>_. Some v)))"

definition rx_height :: "mstate \<Rightarrow> jsstring option" where
  "rx_height = rx_attr (lit ''height'')
     (greedy1 isDigit (\<lambda>v st. cls isQuote st \<bind> (\<lambda>_. Some v)))"

section \<open>speed\_heuristics\_checker\<close>

subsection \<open>Script extraction\<close>

definition scriptMatches :: "jsstring \<Rightarrow> (jsstring \<times> jsstring) list" where
  "scriptMatches html = matchAll rx_script html"

definition hasDefer :: "jsstring \<Rightarrow> bool" where
  "hasDefer attrs = test rx_defer attrs"

definition hasAsync :: "jsstring \<Rightarrow> bool" where
  "hasAsync attrs = test rx_async attrs"

definition hasSrc :: "jsstring \<Rightarrow> bool" where
  "hasSrc attrs = test rx_src attrs"

text \<open>
  One turn of the loop over \<open>scriptMatches\<close> (lines 32 to 53), on the three counters
  \<open>totalScripts\<close>, \<open>blockingScripts\<close> and \<open>inlineBytes\<close>. A match is the pair of its
  two groups; both groups always take part in a match, so \<^verbatim>\<open>match[1] || ''\<close> is the
  group itself.
\<close>

definition scriptStep :: "jsstring \<times> jsstring \<Rightarrow> nat \<times> nat \<times> nat \<Rightarrow> nat \<times> nat \<times> nat" where
  "scriptStep match acc =
     (case acc of (totalScripts, blockingScripts, inlineBytes) \<Rightarrow>
        let totalScripts = totalScripts + 1;
            attrs = fst match;
            body = snd match;
            blockingScripts =
              (if \<not> hasDefer attrs \<and> \<not> hasAsync attrs then blockingScripts + 1
               else blockingScripts);
            inlineBytes =
              (if \<not> hasSrc attrs then inlineBytes + byteLength body else inlineBytes)
        in (totalScripts, blockingScripts, inlineBytes))"

definition scriptCounts :: "jsstring \<Rightarrow> nat \<times> nat \<times> nat" where
  "scriptCounts html = fold scriptStep (scriptMatches html) (0, 0, 0)"

subsection \<open>Image extraction\<close>

text \<open>Lines 56 to 89: the loop over \<open>imgMatches\<close>, on \<open>totalImages\<close>, \<open>noLazy\<close> and
  \<open>suspectedLarge\<close>.\<close>

definition imgMatches :: "jsstring \<Rightarrow> jsstring list" where
  "imgMatches html = matchAll rx_img html"

definition hasLazy :: "jsstring \<Rightarrow> bool" where
  "hasLazy attrs = test rx_loading attrs"

definition srcMatch :: "jsstring \<Rightarrow> jsstring option" where
  "srcMatch attrs = exec rx_src (None, attrs)"

definition widthMatch :: "jsstring \<Rightarrow> jsstring option" where
  "widthMatch attrs = exec rx_width (None, attrs)"

definition heightMatch :: "jsstring \<Rightarrow> jsstring option" where
  "heightMatch attrs = exec rx_height (None, attrs)"

definition srcVal :: "jsstring \<Rightarrow> jsstring" where
  "srcVal attrs = (case srcMatch attrs of Some v \<Rightarrow> toLowerCase v | None \<Rightarrow> [])"

definition widthVal :: "jsstring \<Rightarrow> nat option" where
  "widthVal attrs = (case widthMatch attrs of Some ds \<Rightarrow> Some (parseInt ds) | None \<Rightarrow> None)"

definition heightVal :: "jsstring \<Rightarrow> nat option" where
  "heightVal attrs = (case heightMatch attrs of Some ds \<Rightarrow> Some (parseInt ds) | None \<Rightarrow> None)"

text \<open>
  \<^verbatim>\<open>v && v > 1000\<close>: \<open>null\<close> and \<open>0\<close> are falsy, any other number is compared.
\<close>

definition truthyAndOver1000 :: "nat option \<Rightarrow> bool" where
  "truthyAndOver1000 v = (case v of None \<Rightarrow> False | Some n \<Rightarrow> n \<noteq> 0 \<and> n > 1000)"

definition looksLarge :: "jsstring \<Rightarrow> bool" where
  "looksLarge attrs =
     ((endsWith (srcVal attrs) (lit ''.png'') \<or>
       endsWith (srcVal attrs) (lit ''.jpg'') \<or>
       endsWith (srcVal attrs) (lit ''.jpeg'')) \<and>
      (truthyAndOver1000 (widthVal attrs) \<or> truthyAndOver1000 (heightVal attrs)))"

definition imgStep :: "jsstring \<Rightarrow> nat \<times> nat \<times> nat \<Rightarrow> nat \<times> nat \<times> nat" where
  "imgStep attrs acc =
     (case acc of (totalImages, noLazy, suspectedLarge) \<Rightarrow>
        let totalImages = totalImages + 1;
            noLazy = (if \<not> hasLazy attrs then noLazy + 1 else noLazy);
            suspectedLarge = (if looksLarge attrs then suspectedLarge + 1 else suspectedLarge)
        in (totalImages, noLazy, suspectedLarge))"

definition imageCounts :: "jsstring \<Rightarrow> nat \<times> nat \<times> nat" where
  "imageCounts html = fold imgStep (imgMatches html) (0, 0, 0)"

subsection \<open>Score\<close>

text \<open>Lines 92 to 107. The ratio of two counts is a rational number.\<close>

definition perfScore :: "nat \<Rightarrow> nat \<Rightarrow> nat \<Rightarrow> nat \<Rightarrow> nat \<Rightarrow> nat \<Rightarrow> int" where
  "perfScore totalScripts blockingScripts inlineBytes totalImages noLazy suspectedLarge =
     (let p = 100;
          p = (if totalScripts > 10 then p - (int totalScripts - 10) * 2 else p);
          p = (if blockingScripts > 5 then p - (int blockingScripts - 5) * 4 else p);
          p = (if inlineBytes > 50000 then p - 15 else p);
          p = (if inlineBytes > 150000 then p - 20 else p);
          p = (if noLazy > 0 \<and> totalImages > 0 then
                 (let ratioNoLazy = (of_nat noLazy / of_nat totalImages :: rat)
                  in if ratioNoLazy > 1 / 2 then p - 10 else p)
               else p);
          p = (if suspectedLarge > 0 then p - int suspectedLarge * 5 else p);
          p = (if p < 0 then 0 else p)
      in p)"

subsection \<open>Notes and result\<close>

text \<open>Lines 109 to 145. \<open>U+2705\<close> is the check mark at the end of one of the notes.\<close>

definition push :: "'a list \<Rightarrow> 'a \<Rightarrow> 'a list" where
  "push xs x = xs @ [x]"

definition inlineKB :: "nat \<Rightarrow> int" where
  "inlineKB inlineBytes = math_round (of_nat inlineBytes / 1024)"

definition note_scripts :: "nat \<Rightarrow> jsstring" where
  "note_scripts totalScripts = showNat totalScripts @ lit '' <script> tags detected.''"

definition note_blocking :: "nat \<Rightarrow> jsstring" where
  "note_blocking blockingScripts =
     showNat blockingScripts @ lit '' script(s) without async/defer (possible render-blockers).''"

definition note_async :: jsstring where
  "note_async = lit ''Most scripts appear async/defer '' @ [0x2705]"

definition note_inline :: "nat \<Rightarrow> jsstring" where
  "note_inline inlineBytes =
     lit ''Inline JS total ~'' @ showInt (inlineKB inlineBytes) @ lit ''KB.''"

definition note_lazy :: "nat \<Rightarrow> nat \<Rightarrow> jsstring" where
  "note_lazy noLazy totalImages =
     showNat noLazy @ lit ''/'' @ showNat totalImages @
     lit '' images missing loading='' @ [0x22] @ lit ''lazy'' @ [0x22] @ lit ''.''"

definition note_noimg :: jsstring where
  "note_noimg = lit ''No <img> tags detected.''"

definition note_large :: "nat \<Rightarrow> jsstring" where
  "note_large suspectedLarge =
     showNat suspectedLarge @ lit '' image(s) look very large ( >1000px dimension hints ).''"

definition buildNotes :: "nat \<Rightarrow> nat \<Rightarrow> nat \<Rightarrow> nat \<Rightarrow> nat \<Rightarrow> nat \<Rightarrow> jsstring list" where
  "buildNotes totalScripts blockingScripts inlineBytes totalImages noLazy suspectedLarge =
     (let notes = [];
          notes = push notes (note_scripts totalScripts);
          notes = (if blockingScripts > 0 then push notes (note_blocking blockingScripts)
                   else push notes note_async);
          notes = (if inlineBytes > 0 then push notes (note_inline inlineBytes) else notes);
          notes = (if totalImages > 0 then push notes (note_lazy noLazy totalImages)
                   else push notes note_noimg);
          notes = (if suspectedLarge > 0 then push notes (note_large suspectedLarge) else notes)
      in notes)"

record result =
  url :: jsstring
  totalScripts :: nat
  blockingScripts :: nat
  inlineScriptKB :: int
  totalImages :: nat
  imagesMissingLazyLoad :: nat
  suspectedLargeImages :: nat
  performanceSmellScore :: int
  "notes" :: "jsstring list"

text \<open>Everything after the page has been fetched: lines 24 to 146 of the source.\<close>

definition analyse :: "jsstring \<Rightarrow> jsstring \<Rightarrow> result" where
  "analyse u html =
     (case scriptCounts html of (nScripts, nBlocking, inlineBytes) \<Rightarrow>
      case imageCounts html of (nImages, noLazy, suspectedLarge) \<Rightarrow>
        \<lparr> url = u,
          totalScripts = nScripts,
          blockingScripts = nBlocking,
          inlineScriptKB = inlineKB inlineBytes,
          totalImages = nImages,
          imagesMissingLazyLoad = noLazy,
          suspectedLargeImages = suspectedLarge,
          performanceSmellScore =
            perfScore nScripts nBlocking inlineBytes nImages noLazy suspectedLarge,
          notes = buildNotes nScripts nBlocking inlineBytes nImages noLazy suspectedLarge \<rparr>)"

subsection \<open>Fetching\<close>

text \<open>
  Lines 19 to 21. What \<open>fetch\<close> can do: reject (the page was not reached), or resolve
  to a response with a status, whose text is then read (\<open>Inr\<close>) or fails to be read
  (\<open>Inl\<close>). \<open>res.ok\<close> is true for the statuses 200 to 299. The call ends with an error
  in three ways: with the \<open>Error\<close> that line 20 throws, whose message names the URL and
  the status, or with the rejection of \<open>fetch\<close> or of \<open>res.text\<close>, which \<open>await\<close> passes
  on. The specification calls all of them a fetch failure.
\<close>

datatype fetch_outcome = Rejected jsstring | Response nat "jsstring + jsstring"

datatype error = Error jsstring | Rejection jsstring

definition ok :: "nat \<Rightarrow> bool" where
  "ok status = (200 \<le> status \<and> status \<le> 299)"

definition speed_heuristics_checker :: "jsstring \<Rightarrow> fetch_outcome \<Rightarrow> error + result" where
  "speed_heuristics_checker u outcome =
     (case outcome of
        Rejected reason \<Rightarrow> Inl (Rejection reason)
      | Response status text \<Rightarrow>
          if \<not> ok status then
            Inl (Error (lit ''Failed to fetch '' @ u @ lit '': '' @ showNat status))
          else (case text of
                  Inl reason \<Rightarrow> Inl (Rejection reason)
                | Inr html \<Rightarrow> Inr (analyse u html)))"

section \<open>The words of the specification\<close>

text \<open>
  \<open>before prev w\<close> is the code unit before the position reached after reading \<open>w\<close>.
\<close>

definition before :: "unit16 option \<Rightarrow> jsstring \<Rightarrow> unit16 option" where
  "before prev w = (if w = [] then prev else Some (last w))"

text \<open>
  The attribute text contains the token \<open>w\<close>, under word-boundary, case-insensitive
  matching: some stretch of it agrees with \<open>w\<close> up to the case of letters, with no word
  character right before it and none right after it.
\<close>

definition containsToken :: "jsstring \<Rightarrow> jsstring \<Rightarrow> bool" where
  "containsToken w s =
     (\<exists>pre mid post. s = pre @ mid @ post \<and> map canon mid = map canon w \<and>
        (pre = [] \<or> \<not> isWordChar (last pre)) \<and> (post = [] \<or> \<not> isWordChar (hd post)))"

text \<open>
  The attribute text contains the attribute \<open>name\<close> with the quoted value \<open>v\<close>: at a
  word boundary the name in any case, optional white space, \<open>=\<close>, optional white space,
  a quote, the value, a quote; the value is not empty and made of code units in \<open>P\<close>.
\<close>

definition quotedAttr :: "jsstring \<Rightarrow> (unit16 \<Rightarrow> bool) \<Rightarrow> jsstring \<Rightarrow> jsstring \<Rightarrow> bool" where
  "quotedAttr name P attrs v =
     (\<exists>pre nm ws1 ws2 q1 q2 post.
        attrs = pre @ nm @ ws1 @ [0x3D] @ ws2 @ [q1] @ v @ [q2] @ post \<and>
        map canon nm = map canon name \<and> (pre = [] \<or> \<not> isWordChar (last pre)) \<and>
        list_all isSpace ws1 \<and> list_all isSpace ws2 \<and> isQuote q1 \<and> isQuote q2 \<and>
        v \<noteq> [] \<and> list_all P v)"

text \<open>
  The same, with the place named: \<open>quotedAt name P pre rest v\<close> says that the attribute
  with value \<open>v\<close> starts right after \<open>pre\<close>, at the beginning of \<open>rest\<close>.
  \<open>firstQuoted name P attrs v\<close> says that the leftmost place of the attribute text where
  such an attribute starts gives the value \<open>v\<close>.
\<close>

definition quotedAt :: "jsstring \<Rightarrow> (unit16 \<Rightarrow> bool) \<Rightarrow> jsstring \<Rightarrow> jsstring \<Rightarrow> jsstring \<Rightarrow> bool" where
  "quotedAt name P pre rest v =
     (\<exists>nm ws1 ws2 q1 q2 post.
        rest = nm @ ws1 @ [0x3D] @ ws2 @ [q1] @ v @ [q2] @ post \<and>
        map canon nm = map canon name \<and> (pre = [] \<or> \<not> isWordChar (last pre)) \<and>
        list_all isSpace ws1 \<and> list_all isSpace ws2 \<and> isQuote q1 \<and> isQuote q2 \<and>
        v \<noteq> [] \<and> list_all P v)"

definition firstQuoted :: "jsstring \<Rightarrow> (unit16 \<Rightarrow> bool) \<Rightarrow> jsstring \<Rightarrow> jsstring \<Rightarrow> bool" where
  "firstQuoted name P attrs v =
     (\<exists>n\<le>length attrs. quotedAt name P (take n attrs) (drop n attrs) v \<and>
        (\<forall>k<n. \<forall>v'. \<not> quotedAt name P (take k attrs) (drop k attrs) v'))"

text \<open>The name of a raster image: it ends with \<open>.png\<close>, \<open>.jpg\<close> or \<open>.jpeg\<close>.\<close>

definition rasterName :: "jsstring \<Rightarrow> bool" where
  "rasterName v = (endsWith v (lit ''.png'') \<or> endsWith v (lit ''.jpg'') \<or>
                   endsWith v (lit ''.jpeg''))"



subsection \<open>The attributes of a tag\<close>

text \<open>
  What the attributes of an element are, as HTML reads the text of a start tag: the
  states are those of the tokenizer of the HTML standard. White space and \<open>/\<close> separate
  attributes; a name runs up to white space, \<open>/\<close> or \<open>=\<close>; a value is quoted, up to the
  same quote, or unquoted, up to white space; an attribute without \<open>=\<close> has the empty
  value. \<open>attrValue\<close> is the value of the first attribute with the name, in any case
  (a later attribute of the same name is dropped).
\<close>

datatype attr_state = BeforeName | InName | AfterName | BeforeValue | InQuoted unit16 | InUnquoted

definition isHtmlSpace :: "unit16 \<Rightarrow> bool" where
  "isHtmlSpace c = (c = 0x09 \<or> c = 0x0A \<or> c = 0x0C \<or> c = 0x0D \<or> c = 0x20)"

fun scanAttrs :: "attr_state \<Rightarrow> jsstring \<Rightarrow> jsstring \<Rightarrow> jsstring \<Rightarrow> (jsstring \<times> jsstring) list" where
  "scanAttrs BeforeName n v [] = []"
| "scanAttrs st n v [] = [(n, v)]"
| "scanAttrs BeforeName n v (c # cs) =
     (if isHtmlSpace c \<or> c = 0x2F then scanAttrs BeforeName [] [] cs
      else scanAttrs InName [c] [] cs)"
| "scanAttrs InName n v (c # cs) =
     (if isHtmlSpace c then scanAttrs AfterName n [] cs
      else if c = 0x2F then (n, []) # scanAttrs BeforeName [] [] cs
      else if c = 0x3D then scanAttrs BeforeValue n [] cs
      else scanAttrs InName (n @ [c]) [] cs)"
| "scanAttrs AfterName n v (c # cs) =
     (if isHtmlSpace c then scanAttrs AfterName n [] cs
      else if c = 0x2F then (n, []) # scanAttrs BeforeName [] [] cs
      else if c = 0x3D then scanAttrs BeforeValue n [] cs
      else (n, []) # scanAttrs InName [c] [] cs)"
| "scanAttrs BeforeValue n v (c # cs) =
     (if isHtmlSpace c then scanAttrs BeforeValue n [] cs
      else if isQuote c then scanAttrs (InQuoted c) n [] cs
      else scanAttrs InUnquoted n [c] cs)"
| "scanAttrs (InQuoted q) n v (c # cs) =
     (if c = q then (n, v) # scanAttrs BeforeName [] [] cs
      else scanAttrs (InQuoted q) n (v @ [c]) cs)"
| "scanAttrs InUnquoted n v (c # cs) =
     (if isHtmlSpace c then (n, v) # scanAttrs BeforeName [] [] cs
      else scanAttrs InUnquoted n (v @ [c]) cs)"

definition attributes :: "jsstring \<Rightarrow> (jsstring \<times> jsstring) list" where
  "attributes attrs = scanAttrs BeforeName [] [] attrs"

definition attrValue :: "jsstring \<Rightarrow> jsstring \<Rightarrow> jsstring option" where
  "attrValue name attrs =
     map_option snd (find (\<lambda>(n, v). map canon n = map canon name) (attributes attrs))"

text \<open>
  The claim on images, word for word: the value of the \<open>src\<close> attribute, in lower case,
  ends with \<open>.png\<close>, \<open>.jpg\<close> or \<open>.jpeg\<close>, and the \<open>width\<close> or the \<open>height\<close>
  attribute is present and is a number above 1000.
\<close>

definition numberOver1000 :: "jsstring option \<Rightarrow> bool" where
  "numberOver1000 x =
     (case x of None \<Rightarrow> False | Some v \<Rightarrow> v \<noteq> [] \<and> list_all isDigit v \<and> parseInt v > 1000)"

definition claimedLarge :: "jsstring \<Rightarrow> bool" where
  "claimedLarge attrs =
     ((case attrValue (lit ''src'') attrs of None \<Rightarrow> False
       | Some v \<Rightarrow> rasterName (toLowerCase v)) \<and>
      (numberOver1000 (attrValue (lit ''width'') attrs) \<or>
       numberOver1000 (attrValue (lit ''height'') attrs)))"

section \<open>One call, variable by variable\<close>

text \<open>
  To see what one call can hand to the next, the call is written once more as the
  sequence of its assignments on a frame that holds every variable the function body
  assigns, together with the \<open>lastIndex\<close> of the two regular expression objects with the
  flag \<open>g\<close>. A call of a JavaScript function makes these anew; here a call starts on
  any frame at all, for instance the one the call before left, and only what the
  statements write counts.
  \<^item> Evaluating a regular expression literal makes an object with \<open>lastIndex\<close> 0, and
    \<open>matchAll\<close> searches from the \<open>lastIndex\<close> of the object it is given.
  \<^item> The patterns that \<open>test\<close> and \<open>match\<close> use have no flag \<open>g\<close>: such a search
    neither reads nor writes \<open>lastIndex\<close>, and the constants of a loop turn
    (\<open>attrs\<close>, \<open>hasDefer\<close> and the like) are computed from the match alone.
\<close>

record frame =
  re_script_lastIndex :: nat
  re_img_lastIndex :: nat
  var_scriptMatches :: "(jsstring \<times> jsstring) list"
  var_totalScripts :: nat
  var_blockingScripts :: nat
  var_inlineBytes :: nat
  var_imgMatches :: "jsstring list"
  var_totalImages :: nat
  var_noLazy :: nat
  var_suspectedLarge :: nat
  var_perfScore :: int
  var_notes :: "jsstring list"

definition matchAllAt :: "(mstate \<Rightarrow> ('a \<times> mstate) option) \<Rightarrow> nat \<Rightarrow> jsstring \<Rightarrow> 'a list" where
  "matchAllAt m lastIndex s = matchAllFrom m (before None (take lastIndex s), drop lastIndex s)"

text \<open>Lines 32 to 53 and 60 to 89: the body of each loop.\<close>

definition scriptStmts :: "jsstring \<times> jsstring \<Rightarrow> frame \<Rightarrow> frame" where
  "scriptStmts match s =
     (let s = s\<lparr>var_totalScripts := var_totalScripts s + 1\<rparr>;
          attrs = fst match;
          body = snd match;
          s = (if \<not> hasDefer attrs \<and> \<not> hasAsync attrs
               then s\<lparr>var_blockingScripts := var_blockingScripts s + 1\<rparr> else s);
          s = (if \<not> hasSrc attrs
               then s\<lparr>var_inlineBytes := var_inlineBytes s + byteLength body\<rparr> else s)
      in s)"

definition imgStmts :: "jsstring \<Rightarrow> frame \<Rightarrow> frame" where
  "imgStmts attrs s =
     (let s = s\<lparr>var_totalImages := var_totalImages s + 1\<rparr>;
          s = (if \<not> hasLazy attrs then s\<lparr>var_noLazy := var_noLazy s + 1\<rparr> else s);
          s = (if looksLarge attrs
               then s\<lparr>var_suspectedLarge := var_suspectedLarge s + 1\<rparr> else s)
      in s)"

text \<open>Lines 24 to 89, lines 92 to 107, lines 109 to 133, and the object of line 135.\<close>

definition extractStmts :: "jsstring \<Rightarrow> frame \<Rightarrow> frame" where
  "extractStmts html s =
     (let s = s\<lparr>re_script_lastIndex := 0\<rparr>;
          s = s\<lparr>var_scriptMatches := matchAllAt rx_script (re_script_lastIndex s) html\<rparr>;
          s = s\<lparr>var_totalScripts := 0\<rparr>;
          s = s\<lparr>var_blockingScripts := 0\<rparr>;
          s = s\<lparr>var_inlineBytes := 0\<rparr>;
          s = fold scriptStmts (var_scriptMatches s) s;
          s = s\<lparr>re_img_lastIndex := 0\<rparr>;
          s = s\<lparr>var_imgMatches := matchAllAt rx_img (re_img_lastIndex s) html\<rparr>;
          s = s\<lparr>var_totalImages := 0\<rparr>;
          s = s\<lparr>var_noLazy := 0\<rparr>;
          s = s\<lparr>var_suspectedLarge := 0\<rparr>;
          s = fold imgStmts (var_imgMatches s) s
      in s)"

definition scoreStmts :: "frame \<Rightarrow> frame" where
  "scoreStmts s =
     (let s = s\<lparr>var_perfScore := 100\<rparr>;
          s = (if var_totalScripts s > 10
               then s\<lparr>var_perfScore := var_perfScore s - (int (var_totalScripts s) - 10) * 2\<rparr>
               else s);
          s = (if var_blockingScripts s > 5
               then s\<lparr>var_perfScore := var_perfScore s - (int (var_blockingScripts s) - 5) * 4\<rparr>
               else s);
          s = (if var_inlineBytes s > 50000 then s\<lparr>var_perfScore := var_perfScore s - 15\<rparr> else s);
          s = (if var_inlineBytes s > 150000 then s\<lparr>var_perfScore := var_perfScore s - 20\<rparr> else s);
          s = (if var_noLazy s > 0 \<and> var_totalImages s > 0 then
                 (let ratioNoLazy = (of_nat (var_noLazy s) / of_nat (var_totalImages s) :: rat)
                  in if ratioNoLazy > 1 / 2 then s\<lparr>var_perfScore := var_perfScore s - 10\<rparr> else s)
               else s);
          s = (if var_suspectedLarge s > 0
               then s\<lparr>var_perfScore := var_perfScore s - int (var_suspectedLarge s) * 5\<rparr>
               else s);
          s = (if var_perfScore s < 0 then s\<lparr>var_perfScore := 0\<rparr> else s)
      in s)"

definition noteStmts :: "frame \<Rightarrow> frame" where
  "noteStmts s =
     (let s = s\<lparr>var_notes := []\<rparr>;
          s = s\<lparr>var_notes := push (var_notes s) (note_scripts (var_totalScripts s))\<rparr>;
          s = (if var_blockingScripts s > 0
               then s\<lparr>var_notes := push (var_notes s) (note_blocking (var_blockingScripts s))\<rparr>
               else s\<lparr>var_notes := push (var_notes s) note_async\<rparr>);
          s = (if var_inlineBytes s > 0
               then s\<lparr>var_notes := push (var_notes s) (note_inline (var_inlineBytes s))\<rparr>
               else s);
          s = (if var_totalImages s > 0
               then s\<lparr>var_notes :=
                      push (var_notes s) (note_lazy (var_noLazy s) (var_totalImages s))\<rparr>
               else s\<lparr>var_notes := push (var_notes s) note_noimg\<rparr>);
          s = (if var_suspectedLarge s > 0
               then s\<lparr>var_notes := push (var_notes s) (note_large (var_suspectedLarge s))\<rparr>
               else s)
      in s)"

definition returned :: "jsstring \<Rightarrow> frame \<Rightarrow> result" where
  "returned u s =
     \<lparr> url = u,
       totalScripts = var_totalScripts s,
       blockingScripts = var_blockingScripts s,
       inlineScriptKB = math_round (of_nat (var_inlineBytes s) / 1024),
       totalImages = var_totalImages s,
       imagesMissingLazyLoad = var_noLazy s,
       suspectedLargeImages = var_suspectedLarge s,
       performanceSmellScore = var_perfScore s,
       notes = var_notes s \<rparr>"

definition run :: "jsstring \<Rightarrow> jsstring \<Rightarrow> frame \<Rightarrow> result \<times> frame" where
  "run u html s =
     (let s = extractStmts html s;
          s = scoreStmts s;
          s = noteStmts s
      in (returned u s, s))"

text \<open>The whole call: it returns its outcome and the frame it leaves.\<close>

definition invoke :: "jsstring \<Rightarrow> fetch_outcome \<Rightarrow> frame \<Rightarrow> (error + result) \<times> frame" where
  "invoke u outcome s =
     (case outcome of
        Rejected reason \<Rightarrow> (Inl (Rejection reason), s)
      | Response status text \<Rightarrow>
          if \<not> ok status then
            (Inl (Error (lit ''Failed to fetch '' @ u @ lit '': '' @ showNat status)), s)
          else (case text of
                  Inl reason \<Rightarrow> (Inl (Rejection reason), s)
                | Inr html \<Rightarrow> (case run u html s of (r, s') \<Rightarrow> (Inr r, s'))))"

section \<open>Auxiliary facts\<close>

lemmas char_defs = canon_def isWordChar_def isDigit_def isSpace_def isQuote_def notQuote_def
  notGt_def anyChar_def

lemmas rx_defs = rx_script_def rx_img_def rx_word_def rx_defer_def rx_async_def rx_attr_def
  rx_src_def rx_loading_def rx_width_def rx_height_def wordB_def

lemmas run_defs = lit_def test_def matchAll_def matchAllFrom.simps scriptMatches_def
  imgMatches_def hasDefer_def hasAsync_def hasSrc_def hasLazy_def srcMatch_def widthMatch_def
  heightMatch_def srcVal_def widthVal_def
  heightVal_def truthyAndOver1000_def looksLarge_def scriptCounts_def imageCounts_def
  scriptStep_def imgStep_def toLowerCase_def endsWith_def parseInt_def

lemma inlineKB_div: "inlineKB n = (int n + 512) div 1024"
proof -
  have "(of_nat n / 1024 + 1 / 2 :: rat) = of_int (int n + 512) / of_int 1024"
    by (simp add: field_simps)
  then have "math_round (of_nat n / 1024) = \<lfloor>(of_int (int n + 512) / of_int 1024 :: rat)\<rfloor>"
    by (simp only: math_round_def)
  also have "\<dots> = (int n + 512) div 1024"
    by (rule floor_divide_of_int_eq)
  finally show ?thesis by (simp add: inlineKB_def)
qed

text \<open>The two loops, as counts over the matches.\<close>

lemma fold_scriptStep:
  "fold scriptStep ms (t, b, i) =
     (t + length ms,
      b + length (filter (\<lambda>m. \<not> hasDefer (fst m) \<and> \<not> hasAsync (fst m)) ms),
      i + sum_list (map (\<lambda>m. byteLength (snd m)) (filter (\<lambda>m. \<not> hasSrc (fst m)) ms)))"
  by (induction ms arbitrary: t b i) (simp_all add: scriptStep_def Let_def)

lemma fold_imgStep:
  "fold imgStep ms (t, n, l) =
     (t + length ms,
      n + length (filter (\<lambda>a. \<not> hasLazy a) ms),
      l + length (filter looksLarge ms))"
  by (induction ms arbitrary: t n l) (simp_all add: imgStep_def Let_def)

lemma scriptCounts_eq:
  "scriptCounts html =
     (length (scriptMatches html),
      length (filter (\<lambda>m. \<not> hasDefer (fst m) \<and> \<not> hasAsync (fst m)) (scriptMatches html)),
      sum_list (map (\<lambda>m. byteLength (snd m))
        (filter (\<lambda>m. \<not> hasSrc (fst m)) (scriptMatches html))))"
  by (simp add: scriptCounts_def fold_scriptStep)

lemma imageCounts_eq:
  "imageCounts html =
     (length (imgMatches html),
      length (filter (\<lambda>a. \<not> hasLazy a) (imgMatches html)),
      length (filter looksLarge (imgMatches html)))"
  by (simp add: imageCounts_def fold_imgStep)

lemma perfScore_range:
  "0 \<le> perfScore ts bs ib ti nl sl \<and> perfScore ts bs ib ti nl sl \<le> 100"
  by (simp add: perfScore_def Let_def)

lemma buildNotes_eq:
  "buildNotes ts bs ib ti nl sl =
     [note_scripts ts] @ [if bs > 0 then note_blocking bs else note_async] @
     (if ib > 0 then [note_inline ib] else []) @
     [if ti > 0 then note_lazy nl ti else note_noimg] @
     (if sl > 0 then [note_large sl] else [])"
  by (simp add: buildNotes_def push_def Let_def)

lemma analyse_fields:
  assumes "scriptCounts html = (ts, bs, ib)" and "imageCounts html = (ti, nl, sl)"
  shows "analyse u html =
     \<lparr> url = u, totalScripts = ts, blockingScripts = bs, inlineScriptKB = inlineKB ib,
       totalImages = ti, imagesMissingLazyLoad = nl, suspectedLargeImages = sl,
       performanceSmellScore = perfScore ts bs ib ti nl sl,
       notes = buildNotes ts bs ib ti nl sl \<rparr>"
  using assms by (simp add: analyse_def)

subsection \<open>What a search finds\<close>

lemma before_simps [simp]: "before prev [] = prev" "before prev (c # w) = before (Some c) w"
  by (simp_all add: before_def)

lemma before_append: "before prev (u @ v) = before (before prev u) v"
  by (simp add: before_def)

lemma isWordChar_canon: "isWordChar (canon c) = isWordChar c"
  unfolding isWordChar_def canon_def
  apply (auto simp: word_le_nat_alt unat_sub word_less_nat_alt)
  done

lemma chr_ci_Some:
  "chr_ci p (prev, s) = Some st \<longleftrightarrow> (\<exists>c cs. s = c # cs \<and> canon c = canon p \<and> st = (Some c, cs))"
  by (cases s) auto

lemma lit_ci_Some:
  "lit_ci w (prev, s) = Some st \<longleftrightarrow>
     (\<exists>mid rest. s = mid @ rest \<and> map canon mid = map canon w \<and> st = (before prev mid, rest))"
proof (induction w arbitrary: prev s)
  case Nil
  then show ?case by auto
next
  case (Cons p w)
  show ?case
  proof (cases s)
    case Nil
    then show ?thesis by simp
  next
    case (Cons c cs)
    show ?thesis
    proof (cases "canon c = canon p")
      case True
      have "lit_ci (p # w) (prev, s) = Some st \<longleftrightarrow> lit_ci w (Some c, cs) = Some st"
        using Cons True by simp
      also have "\<dots> \<longleftrightarrow> (\<exists>mid rest. cs = mid @ rest \<and> map canon mid = map canon w \<and>
          st = (before (Some c) mid, rest))"
        by (rule Cons.IH)
      also have "\<dots> \<longleftrightarrow> (\<exists>mid rest. s = mid @ rest \<and> map canon mid = map canon (p # w) \<and>
          st = (before prev mid, rest))"
      proof
        assume "\<exists>mid rest. cs = mid @ rest \<and> map canon mid = map canon w \<and>
          st = (before (Some c) mid, rest)"
        then obtain mid rest where "cs = mid @ rest" "map canon mid = map canon w"
          "st = (before (Some c) mid, rest)" by blast
        then have "s = (c # mid) @ rest \<and> map canon (c # mid) = map canon (p # w) \<and>
          st = (before prev (c # mid), rest)"
          using Cons True by simp
        then show "\<exists>mid rest. s = mid @ rest \<and> map canon mid = map canon (p # w) \<and>
          st = (before prev mid, rest)" by blast
      next
        assume "\<exists>mid rest. s = mid @ rest \<and> map canon mid = map canon (p # w) \<and>
          st = (before prev mid, rest)"
        then obtain mid rest where m: "s = mid @ rest" "map canon mid = map canon (p # w)"
          "st = (before prev mid, rest)" by blast
        then obtain d mid' where d: "mid = d # mid'" by (cases mid) auto
        with m Cons have "cs = mid' @ rest \<and> map canon mid' = map canon w \<and>
          st = (before (Some c) mid', rest)" by simp
        then show "\<exists>mid rest. cs = mid @ rest \<and> map canon mid = map canon w \<and>
          st = (before (Some c) mid, rest)" by blast
      qed
      finally show ?thesis .
    next
      case False
      have "\<not> (\<exists>mid rest. s = mid @ rest \<and> map canon mid = map canon (p # w) \<and>
          st = (before prev mid, rest))"
      proof
        assume "\<exists>mid rest. s = mid @ rest \<and> map canon mid = map canon (p # w) \<and>
          st = (before prev mid, rest)"
        then obtain mid rest where m: "s = mid @ rest" "map canon mid = map canon (p # w)" by blast
        then obtain d mid' where d: "mid = d # mid'" by (cases mid) auto
        with m Cons False show False by simp
      qed
      then show ?thesis using Cons False by simp
    qed
  qed
qed

lemma exec_Some:
  "exec m (prev, s) \<noteq> None \<longleftrightarrow>
     (\<exists>pre post. s = pre @ post \<and> m (before prev pre, post) \<noteq> None)"
proof (induction s arbitrary: prev)
  case Nil
  then show ?case by simp
next
  case (Cons c cs)
  show ?case
  proof (cases "m (prev, c # cs)")
    case (Some r)
    then have "c # cs = [] @ (c # cs) \<and> m (before prev [], c # cs) \<noteq> None" by simp
    then have "\<exists>pre post. c # cs = pre @ post \<and> m (before prev pre, post) \<noteq> None" by blast
    then show ?thesis using Some by simp
  next
    case None
    have "exec m (prev, c # cs) \<noteq> None \<longleftrightarrow> exec m (Some c, cs) \<noteq> None"
      using None by simp
    also have "\<dots> \<longleftrightarrow> (\<exists>pre post. cs = pre @ post \<and> m (before (Some c) pre, post) \<noteq> None)"
      by (rule Cons.IH)
    also have "\<dots> \<longleftrightarrow> (\<exists>pre post. c # cs = pre @ post \<and> m (before prev pre, post) \<noteq> None)"
    proof
      assume "\<exists>pre post. cs = pre @ post \<and> m (before (Some c) pre, post) \<noteq> None"
      then obtain pre post where "cs = pre @ post" "m (before (Some c) pre, post) \<noteq> None" by blast
      then have "c # cs = (c # pre) @ post \<and> m (before prev (c # pre), post) \<noteq> None" by simp
      then show "\<exists>pre post. c # cs = pre @ post \<and> m (before prev pre, post) \<noteq> None" by blast
    next
      assume "\<exists>pre post. c # cs = pre @ post \<and> m (before prev pre, post) \<noteq> None"
      then obtain pre post where p: "c # cs = pre @ post" "m (before prev pre, post) \<noteq> None" by blast
      show "\<exists>pre post. cs = pre @ post \<and> m (before (Some c) pre, post) \<noteq> None"
      proof (cases pre)
        case Nil
        with p None show ?thesis by simp
      next
        case (Cons d pre')
        with p have "cs = pre' @ post \<and> m (before (Some c) pre', post) \<noteq> None" by simp
        then show ?thesis by blast
      qed
    qed
    finally show ?thesis .
  qed
qed

lemma wordBefore_before:
  "wordBefore (before None pre, s) \<longleftrightarrow> pre \<noteq> [] \<and> isWordChar (last pre)"
  by (simp add: before_def)

lemma wordBefore_Some: "wordBefore (before prev mid, s) = isWordChar (last mid)" if "mid \<noteq> []"
  using that by (simp add: before_def)

lemma wordAfter_hd: "wordAfter (prev, s) \<longleftrightarrow> s \<noteq> [] \<and> isWordChar (hd s)"
  by (cases s) simp_all

lemma same_canon_hd:
  assumes "map canon mid = map canon w" and "w \<noteq> []"
  shows "mid \<noteq> []" and "isWordChar (hd mid) = isWordChar (hd w)"
    and "isWordChar (last mid) = isWordChar (last w)"
proof -
  show ne: "mid \<noteq> []" using assms by auto
  have "canon (hd mid) = canon (hd w)"
    using assms ne by (metis hd_map)
  then show "isWordChar (hd mid) = isWordChar (hd w)"
    by (metis isWordChar_canon)
  have "canon (last mid) = canon (last w)"
    using assms ne by (metis last_map)
  then show "isWordChar (last mid) = isWordChar (last w)"
    by (metis isWordChar_canon)
qed

lemma rx_word_at:
  assumes "w \<noteq> []" and "isWordChar (hd w)" and "isWordChar (last w)"
  shows "rx_word w (before None pre, s) \<noteq> None \<longleftrightarrow>
     (\<exists>mid post. s = mid @ post \<and> map canon mid = map canon w \<and>
        (pre = [] \<or> \<not> isWordChar (last pre)) \<and> (post = [] \<or> \<not> isWordChar (hd post)))"
proof
  assume "rx_word w (before None pre, s) \<noteq> None"
  then obtain st' where b1: "wordBefore (before None pre, s) \<noteq> wordAfter (before None pre, s)"
    and l: "lit_ci w (before None pre, s) = Some st'"
    and b2: "wordBefore st' \<noteq> wordAfter st'"
    by (auto simp: rx_word_def wordB_def split: if_splits bind_splits)
  from l obtain mid post where m: "s = mid @ post" "map canon mid = map canon w"
    "st' = (before (before None pre) mid, post)"
    by (auto simp: lit_ci_Some)
  note c = same_canon_hd [OF m(2) assms(1)]
  have "wordAfter (before None pre, s)"
    using m(1) c assms by (simp add: wordAfter_hd)
  with b1 have p1: "pre = [] \<or> \<not> isWordChar (last pre)"
    by (simp add: wordBefore_before)
  have "wordBefore st'"
    using m(3) c assms by (simp add: wordBefore_Some)
  with b2 m(3) have p2: "post = [] \<or> \<not> isWordChar (hd post)"
    by (simp add: wordAfter_hd)
  from m p1 p2 show "\<exists>mid post. s = mid @ post \<and> map canon mid = map canon w \<and>
        (pre = [] \<or> \<not> isWordChar (last pre)) \<and> (post = [] \<or> \<not> isWordChar (hd post))"
    by blast
next
  assume "\<exists>mid post. s = mid @ post \<and> map canon mid = map canon w \<and>
        (pre = [] \<or> \<not> isWordChar (last pre)) \<and> (post = [] \<or> \<not> isWordChar (hd post))"
  then obtain mid post where m: "s = mid @ post" "map canon mid = map canon w"
    and p1: "pre = [] \<or> \<not> isWordChar (last pre)"
    and p2: "post = [] \<or> \<not> isWordChar (hd post)" by blast
  note c = same_canon_hd [OF m(2) assms(1)]
  have a: "wordAfter (before None pre, s)"
    using m(1) c assms by (simp add: wordAfter_hd)
  have b: "\<not> wordBefore (before None pre, s)"
    using p1 by (simp add: wordBefore_before)
  have l: "lit_ci w (before None pre, s) = Some (before (before None pre) mid, post)"
    using m by (auto simp: lit_ci_Some)
  have a': "wordBefore (before (before None pre) mid, post)"
    using c assms by (simp add: wordBefore_Some)
  have b': "\<not> wordAfter (before (before None pre) mid, post)"
    using p2 by (simp add: wordAfter_hd)
  show "rx_word w (before None pre, s) \<noteq> None"
    using a b l a' b' by (simp add: rx_word_def wordB_def)
qed

lemma test_rx_word:
  assumes "w \<noteq> []" and "isWordChar (hd w)" and "isWordChar (last w)"
  shows "test (rx_word w) s \<longleftrightarrow> containsToken w s"
proof -
  have "test (rx_word w) s \<longleftrightarrow>
      (\<exists>pre rest. s = pre @ rest \<and> rx_word w (before None pre, rest) \<noteq> None)"
    unfolding test_def by (rule exec_Some)
  also have "\<dots> \<longleftrightarrow> (\<exists>pre rest. s = pre @ rest \<and>
      (\<exists>mid post. rest = mid @ post \<and> map canon mid = map canon w \<and>
        (pre = [] \<or> \<not> isWordChar (last pre)) \<and> (post = [] \<or> \<not> isWordChar (hd post))))"
    by (simp only: rx_word_at [OF assms])
  also have "\<dots> \<longleftrightarrow> containsToken w s"
    unfolding containsToken_def by blast
  finally show ?thesis .
qed

lemma hasDefer_iff: "hasDefer attrs \<longleftrightarrow> containsToken (lit ''defer'') attrs"
  unfolding hasDefer_def rx_defer_def
  by (rule test_rx_word) (simp_all add: lit_def isWordChar_def)

lemma hasAsync_iff: "hasAsync attrs \<longleftrightarrow> containsToken (lit ''async'') attrs"
  unfolding hasAsync_def rx_async_def
  by (rule test_rx_word) (simp_all add: lit_def isWordChar_def)

subsection \<open>Quantifiers and attribute patterns\<close>

lemma canon_eq_sym: "canon c = 0x3D \<longleftrightarrow> c = 0x3D"  "canon c = 0x3E \<longleftrightarrow> c = 0x3E"
proof -
  have a: "c - 0x20 = 0x3D \<Longrightarrow> c = 0x5D" by (simp add: diff_eq_eq)
  have b: "c - 0x20 = 0x3E \<Longrightarrow> c = 0x5E" by (simp add: diff_eq_eq)
  show "canon c = 0x3D \<longleftrightarrow> c = 0x3D" unfolding canon_def using a by auto
  show "canon c = 0x3E \<longleftrightarrow> c = 0x3E" unfolding canon_def using b by auto
qed

lemma cls_Some: "cls P (prev, s) = Some st \<longleftrightarrow> (\<exists>c cs. s = c # cs \<and> P c \<and> st = (Some c, cs))"
  by (cases s) auto

lemma greedy_sound:
  "greedy P k (prev, s) = Some r \<Longrightarrow>
     \<exists>w rest. s = w @ rest \<and> list_all P w \<and> k w (before prev w, rest) = Some r"
proof (induction s arbitrary: k prev)
  case Nil
  then show ?case by simp
next
  case (Cons c cs)
  show ?case
  proof (cases "P c \<and> greedy P (\<lambda>w. k (c # w)) (Some c, cs) \<noteq> None")
    case True
    then have "greedy P (\<lambda>w. k (c # w)) (Some c, cs) = Some r"
      using Cons.prems by auto
    from Cons.IH [OF this] obtain w rest where
      "cs = w @ rest" "list_all P w" "k (c # w) (before (Some c) w, rest) = Some r" by blast
    with True have "c # cs = (c # w) @ rest \<and> list_all P (c # w) \<and>
        k (c # w) (before prev (c # w), rest) = Some r" by simp
    then show ?thesis by blast
  next
    case False
    then have "k [] (prev, c # cs) = Some r"
      using Cons.prems by (auto split: if_splits)
    then have "c # cs = [] @ (c # cs) \<and> list_all P [] \<and> k [] (before prev [], c # cs) = Some r"
      by simp
    then show ?thesis by blast
  qed
qed


lemma greedy_stop:
  "list_all P w \<Longrightarrow> rest = [] \<or> \<not> P (hd rest) \<Longrightarrow> k w (before prev w, rest) = Some r \<Longrightarrow>
   greedy P k (prev, w @ rest) = Some r"
proof (induction w arbitrary: k prev)
  case Nil
  then show ?case by (cases rest) auto
next
  case (Cons c w)
  then have "greedy P (\<lambda>x. k (c # x)) (Some c, w @ rest) = Some r"
    by (intro Cons.IH) simp_all
  with Cons.prems show ?case by simp
qed

lemma greedy1_sound:
  assumes "greedy1 P k (prev, s) = Some r"
  shows "\<exists>w rest. s = w @ rest \<and> w \<noteq> [] \<and> list_all P w \<and> k w (before prev w, rest) = Some r"
proof (cases s)
  case Nil
  with assms show ?thesis by simp
next
  case (Cons c cs)
  with assms have c: "P c" and "greedy P (\<lambda>w. k (c # w)) (Some c, cs) = Some r"
    by (auto split: if_splits)
  from greedy_sound [OF this(2)] obtain w rest where
    "cs = w @ rest" "list_all P w" "k (c # w) (before (Some c) w, rest) = Some r" by blast
  with Cons c have "s = (c # w) @ rest \<and> c # w \<noteq> [] \<and> list_all P (c # w) \<and>
      k (c # w) (before prev (c # w), rest) = Some r" by simp
  then show ?thesis by blast
qed




lemma canon_eq [simp]: "canon 0x3D = 0x3D"
  by (simp add: canon_def)

lemma rx_attr_sound:
  assumes "name \<noteq> []" and "isWordChar (hd name)"
    and "rx_attr name k (before None pre, s) = Some r"
  shows "\<exists>nm ws1 ws2 q rest. s = nm @ ws1 @ [0x3D] @ ws2 @ [q] @ rest \<and>
           map canon nm = map canon name \<and> (pre = [] \<or> \<not> isWordChar (last pre)) \<and>
           list_all isSpace ws1 \<and> list_all isSpace ws2 \<and> isQuote q \<and>
           k (Some q, rest) = Some r"
proof -
  let ?k2 = "\<lambda>(_::jsstring) st. cls isQuote st \<bind> k"
  let ?k1 = "\<lambda>(_::jsstring) st. chr_ci 0x3D st \<bind> greedy isSpace ?k2"
  from assms(3) obtain st2 where
    b: "wordBefore (before None pre, s) \<noteq> wordAfter (before None pre, s)"
    and l: "lit_ci name (before None pre, s) = Some st2"
    and g: "greedy isSpace ?k1 st2 = Some r"
    by (auto simp: rx_attr_def wordB_def split: if_splits bind_splits)
  from l obtain nm r1 where nm: "s = nm @ r1" "map canon nm = map canon name"
    "st2 = (before (before None pre) nm, r1)"
    by (auto simp: lit_ci_Some)
  note c = same_canon_hd(1,2) [OF nm(2) assms(1)]
  have "wordAfter (before None pre, s)"
    using nm(1) c assms(2) by (simp add: wordAfter_hd)
  with b have p: "pre = [] \<or> \<not> isWordChar (last pre)"
    by (simp add: wordBefore_before)
  from g nm(3) obtain ws1 r2 where ws1: "r1 = ws1 @ r2" "list_all isSpace ws1"
    and e: "?k1 ws1 (before (before (before None pre) nm) ws1, r2) = Some r"
    using greedy_sound [of isSpace ?k1 "before (before None pre) nm" r1 r] by blast
  from e obtain st3 where e1: "chr_ci 0x3D (before (before (before None pre) nm) ws1, r2) = Some st3"
    and g2: "greedy isSpace ?k2 st3 = Some r"
    by (auto split: bind_splits)
  from e1 obtain r3 where r3: "r2 = 0x3D # r3" "st3 = (Some 0x3D, r3)"
    by (auto simp: chr_ci_Some canon_eq_sym)
  from g2 r3(2) obtain ws2 r4 where ws2: "r3 = ws2 @ r4" "list_all isSpace ws2"
    and q: "?k2 ws2 (before (Some 0x3D) ws2, r4) = Some r"
    using greedy_sound [of isSpace ?k2 "Some 0x3D" r3 r] by blast
  from q obtain st5 where "cls isQuote (before (Some 0x3D) ws2, r4) = Some st5" "k st5 = Some r"
    by (auto split: bind_splits)
  then obtain qc rest where qc: "r4 = qc # rest" "isQuote qc" "k (Some qc, rest) = Some r"
    by (auto simp: cls_Some)
  have "s = nm @ ws1 @ [0x3D] @ ws2 @ [qc] @ rest"
    using nm(1) ws1(1) r3(1) ws2(1) qc(1) by simp
  with nm(2) p ws1(2) ws2(2) qc(2,3) show ?thesis by blast
qed





subsection \<open>A page with one script\<close>






subsection \<open>Images that look large\<close>

lemma rasterName_Nil: "\<not> rasterName []"
  by (simp add: rasterName_def endsWith_def lit_def)

lemma looksLarge_eq:
  "looksLarge attrs \<longleftrightarrow>
     (\<exists>v. srcMatch attrs = Some v \<and> rasterName (toLowerCase v)) \<and>
     ((\<exists>ds. widthMatch attrs = Some ds \<and> parseInt ds > 1000) \<or>
      (\<exists>ds. heightMatch attrs = Some ds \<and> parseInt ds > 1000))"
proof -
  have s: "rasterName (srcVal attrs) \<longleftrightarrow> (\<exists>v. srcMatch attrs = Some v \<and> rasterName (toLowerCase v))"
    by (cases "srcMatch attrs") (simp_all add: srcVal_def rasterName_Nil)
  have w: "truthyAndOver1000 (widthVal attrs) \<longleftrightarrow>
      (\<exists>ds. widthMatch attrs = Some ds \<and> parseInt ds > 1000)"
    by (cases "widthMatch attrs") (auto simp: widthVal_def truthyAndOver1000_def)
  have h: "truthyAndOver1000 (heightVal attrs) \<longleftrightarrow>
      (\<exists>ds. heightMatch attrs = Some ds \<and> parseInt ds > 1000)"
    by (cases "heightMatch attrs") (auto simp: heightVal_def truthyAndOver1000_def)
  have "looksLarge attrs \<longleftrightarrow> rasterName (srcVal attrs) \<and>
      (truthyAndOver1000 (widthVal attrs) \<or> truthyAndOver1000 (heightVal attrs))"
    by (simp add: looksLarge_def rasterName_def)
  then show ?thesis by (simp only: s w h)
qed

text \<open>The first match of an attribute pattern, in the words of the text.\<close>

lemma exec_leftmost:
  "exec m (prev, s) = Some r \<longleftrightarrow>
     (\<exists>n\<le>length s. m (before prev (take n s), drop n s) = Some r \<and>
        (\<forall>k<n. m (before prev (take k s), drop k s) = None))"
proof (induction s arbitrary: prev)
  case Nil
  then show ?case by simp
next
  case (Cons c cs)
  show ?case
  proof (cases "m (prev, c # cs)")
    case (Some r')
    have "(\<exists>n\<le>length (c # cs). m (before prev (take n (c # cs)), drop n (c # cs)) = Some r \<and>
        (\<forall>k<n. m (before prev (take k (c # cs)), drop k (c # cs)) = None)) \<longleftrightarrow> r' = r"
    proof
      assume "\<exists>n\<le>length (c # cs). m (before prev (take n (c # cs)), drop n (c # cs)) = Some r \<and>
        (\<forall>k<n. m (before prev (take k (c # cs)), drop k (c # cs)) = None)"
      then obtain n where n: "m (before prev (take n (c # cs)), drop n (c # cs)) = Some r"
        "\<forall>k<n. m (before prev (take k (c # cs)), drop k (c # cs)) = None" by blast
      have "n = 0"
      proof (rule ccontr)
        assume "n \<noteq> 0"
        then have "m (before prev (take 0 (c # cs)), drop 0 (c # cs)) = None"
          using n(2) by blast
        with Some show False by simp
      qed
      with n(1) Some show "r' = r" by simp
    next
      assume "r' = r"
      with Some have "m (before prev (take 0 (c # cs)), drop 0 (c # cs)) = Some r \<and>
        (\<forall>k<0. m (before prev (take k (c # cs)), drop k (c # cs)) = None)" by simp
      then show "\<exists>n\<le>length (c # cs). m (before prev (take n (c # cs)), drop n (c # cs)) = Some r \<and>
        (\<forall>k<n. m (before prev (take k (c # cs)), drop k (c # cs)) = None)" by blast
    qed
    with Some show ?thesis by simp
  next
    case None
    have "exec m (prev, c # cs) = Some r \<longleftrightarrow> exec m (Some c, cs) = Some r"
      using None by simp
    also have "\<dots> \<longleftrightarrow> (\<exists>n\<le>length cs. m (before (Some c) (take n cs), drop n cs) = Some r \<and>
        (\<forall>k<n. m (before (Some c) (take k cs), drop k cs) = None))"
      by (rule Cons.IH)
    also have "\<dots> \<longleftrightarrow> (\<exists>n\<le>length (c # cs).
        m (before prev (take n (c # cs)), drop n (c # cs)) = Some r \<and>
        (\<forall>k<n. m (before prev (take k (c # cs)), drop k (c # cs)) = None))"
    proof
      assume "\<exists>n\<le>length cs. m (before (Some c) (take n cs), drop n cs) = Some r \<and>
        (\<forall>k<n. m (before (Some c) (take k cs), drop k cs) = None)"
      then obtain n where n: "n \<le> length cs" "m (before (Some c) (take n cs), drop n cs) = Some r"
        "\<forall>k<n. m (before (Some c) (take k cs), drop k cs) = None" by blast
      have "m (before prev (take k (c # cs)), drop k (c # cs)) = None" if "k < Suc n" for k
      proof (cases k)
        case 0
        with None show ?thesis by simp
      next
        case (Suc j)
        with that n(3) show ?thesis by simp
      qed
      with n(1,2) have "Suc n \<le> length (c # cs) \<and>
          m (before prev (take (Suc n) (c # cs)), drop (Suc n) (c # cs)) = Some r \<and>
          (\<forall>k<Suc n. m (before prev (take k (c # cs)), drop k (c # cs)) = None)" by simp
      then show "\<exists>n\<le>length (c # cs).
        m (before prev (take n (c # cs)), drop n (c # cs)) = Some r \<and>
        (\<forall>k<n. m (before prev (take k (c # cs)), drop k (c # cs)) = None)" by blast
    next
      assume "\<exists>n\<le>length (c # cs).
        m (before prev (take n (c # cs)), drop n (c # cs)) = Some r \<and>
        (\<forall>k<n. m (before prev (take k (c # cs)), drop k (c # cs)) = None)"
      then obtain n where n: "n \<le> length (c # cs)"
        "m (before prev (take n (c # cs)), drop n (c # cs)) = Some r"
        "\<forall>k<n. m (before prev (take k (c # cs)), drop k (c # cs)) = None" by blast
      from n(2) None obtain j where j: "n = Suc j" by (cases n) auto
      have "m (before (Some c) (take k cs), drop k cs) = None" if "k < j" for k
        using n(3) that j by (auto dest: spec [of _ "Suc k"])
      with n(1,2) j have "j \<le> length cs \<and> m (before (Some c) (take j cs), drop j cs) = Some r \<and>
        (\<forall>k<j. m (before (Some c) (take k cs), drop k cs) = None)" by simp
      then show "\<exists>n\<le>length cs. m (before (Some c) (take n cs), drop n cs) = Some r \<and>
        (\<forall>k<n. m (before (Some c) (take k cs), drop k cs) = None)" by blast
    qed
    finally show ?thesis .
  qed
qed

lemma greedy1_stop:
  assumes "w \<noteq> []" and "list_all P w" and "rest = [] \<or> \<not> P (hd rest)"
    and "k w (before prev w, rest) = Some r"
  shows "greedy1 P k (prev, w @ rest) = Some r"
proof -
  from assms(1) obtain c w' where w: "w = c # w'" by (cases w) auto
  have "greedy P (\<lambda>x. k (c # x)) (Some c, w' @ rest) = Some r"
    using assms w by (intro greedy_stop) simp_all
  with w assms(2) show ?thesis by simp
qed

lemma isQuote_not_isSpace: "isQuote q \<Longrightarrow> \<not> isSpace q"
  by (auto simp: isQuote_def isSpace_def)

lemma quoted_value_at:
  assumes "name \<noteq> []" and "isWordChar (hd name)" and "\<forall>c. isQuote c \<longrightarrow> \<not> P c"
  shows "rx_attr name (greedy1 P (\<lambda>v st. cls isQuote st \<bind> (\<lambda>_. Some v))) (before None pre, rest)
           = Some v \<longleftrightarrow> quotedAt name P pre rest v"
proof
  let ?k = "greedy1 P (\<lambda>v st. cls isQuote st \<bind> (\<lambda>_. Some v))"
  assume "rx_attr name ?k (before None pre, rest) = Some v"
  from rx_attr_sound [OF assms(1,2) this] obtain nm ws1 ws2 q r1 where
    d: "rest = nm @ ws1 @ [0x3D] @ ws2 @ [q] @ r1" "map canon nm = map canon name"
       "pre = [] \<or> \<not> isWordChar (last pre)" "list_all isSpace ws1" "list_all isSpace ws2"
       "isQuote q" "?k (Some q, r1) = Some v"
    by blast
  from greedy1_sound [OF d(7)] obtain w r2 where
    w: "r1 = w @ r2" "w \<noteq> []" "list_all P w"
       "cls isQuote (before (Some q) w, r2) \<bind> (\<lambda>_. Some w) = Some v" by blast
  from w(4) obtain q2 post where q2: "r2 = q2 # post" "isQuote q2" "w = v"
    by (auto simp: cls_Some split: bind_splits)
  have "rest = nm @ ws1 @ [0x3D] @ ws2 @ [q] @ v @ [q2] @ post"
    using d(1) w(1) q2(1,3) by simp
  with d(2-6) q2(2,3) w(2,3) show "quotedAt name P pre rest v"
    unfolding quotedAt_def by blast
next
  let ?K = "\<lambda>v st. cls isQuote st \<bind> (\<lambda>_. Some v)"
  let ?k = "greedy1 P ?K"
  let ?k2 = "\<lambda>(_::jsstring) st. cls isQuote st \<bind> ?k"
  let ?k1 = "\<lambda>(_::jsstring) st. chr_ci 0x3D st \<bind> greedy isSpace ?k2"
  assume "quotedAt name P pre rest v"
  then obtain nm ws1 ws2 q1 q2 post where
    d: "rest = nm @ ws1 @ [0x3D] @ ws2 @ [q1] @ v @ [q2] @ post"
       "map canon nm = map canon name" "pre = [] \<or> \<not> isWordChar (last pre)"
       "list_all isSpace ws1" "list_all isSpace ws2" "isQuote q1" "isQuote q2"
       "v \<noteq> []" "list_all P v"
    unfolding quotedAt_def by blast
  note c = same_canon_hd(1,2) [OF d(2) assms(1)]
  have a: "wordAfter (before None pre, rest)"
    using c assms(2) d(1) by (simp add: wordAfter_hd)
  have b: "\<not> wordBefore (before None pre, rest)"
    using d(3) by (simp add: wordBefore_before)
  have l: "lit_ci name (before None pre, rest) =
      Some (before (before None pre) nm, ws1 @ [0x3D] @ ws2 @ [q1] @ v @ [q2] @ post)"
    using d(1,2) by (auto simp: lit_ci_Some)
  have g3: "?k (Some q1, v @ [q2] @ post) = Some v"
  proof (rule greedy1_stop [OF d(8,9)])
    show "[q2] @ post = [] \<or> \<not> P (hd ([q2] @ post))"
      using assms(3) d(7) by simp
    show "?K v (before (Some q1) v, [q2] @ post) = Some v"
      using d(7) by simp
  qed
  have g2: "greedy isSpace ?k2 (Some 0x3D, ws2 @ [q1] @ v @ [q2] @ post) = Some v"
  proof (rule greedy_stop [OF d(5)])
    show "[q1] @ v @ [q2] @ post = [] \<or> \<not> isSpace (hd ([q1] @ v @ [q2] @ post))"
      using isQuote_not_isSpace [OF d(6)] by simp
    show "?k2 ws2 (before (Some 0x3D) ws2, [q1] @ v @ [q2] @ post) = Some v"
      using g3 d(6) by simp
  qed
  have g1: "greedy isSpace ?k1 (before (before None pre) nm,
      ws1 @ [0x3D] @ ws2 @ [q1] @ v @ [q2] @ post) = Some v"
  proof (rule greedy_stop [OF d(4)])
    show "[0x3D] @ ws2 @ [q1] @ v @ [q2] @ post = [] \<or>
        \<not> isSpace (hd ([0x3D] @ ws2 @ [q1] @ v @ [q2] @ post))"
      by (simp add: isSpace_def)
    show "?k1 ws1 (before (before (before None pre) nm) ws1,
        [0x3D] @ ws2 @ [q1] @ v @ [q2] @ post) = Some v"
      using g2 by simp
  qed
  show "rx_attr name ?k (before None pre, rest) = Some v"
    using a b l g1 by (simp add: rx_attr_def wordB_def)
qed

lemma first_quoted_value:
  assumes "name \<noteq> []" and "isWordChar (hd name)" and "\<forall>c. isQuote c \<longrightarrow> \<not> P c"
  shows "exec (rx_attr name (greedy1 P (\<lambda>v st. cls isQuote st \<bind> (\<lambda>_. Some v)))) (None, attrs)
           = Some v \<longleftrightarrow> firstQuoted name P attrs v"
proof -
  let ?m = "rx_attr name (greedy1 P (\<lambda>v st. cls isQuote st \<bind> (\<lambda>_. Some v)))"
  have n: "?m (before None pre, rest) = None \<longleftrightarrow> (\<forall>v'. \<not> quotedAt name P pre rest v')"
    for pre rest
    using quoted_value_at [OF assms, where pre=pre and rest=rest] by (cases "?m (before None pre, rest)") auto
  show ?thesis
    unfolding exec_leftmost firstQuoted_def
    by (simp only: quoted_value_at [OF assms] n)
qed

lemma srcMatch_iff: "srcMatch attrs = Some v \<longleftrightarrow> firstQuoted (lit ''src'') notQuote attrs v"
  unfolding srcMatch_def rx_src_def
  by (rule first_quoted_value) (simp_all add: lit_def isWordChar_def notQuote_def)

lemma widthMatch_iff: "widthMatch attrs = Some v \<longleftrightarrow> firstQuoted (lit ''width'') isDigit attrs v"
  unfolding widthMatch_def rx_width_def
  by (rule first_quoted_value) (auto simp: lit_def isWordChar_def isDigit_def isQuote_def)

lemma heightMatch_iff: "heightMatch attrs = Some v \<longleftrightarrow> firstQuoted (lit ''height'') isDigit attrs v"
  unfolding heightMatch_def rx_height_def
  by (rule first_quoted_value) (auto simp: lit_def isWordChar_def isDigit_def isQuote_def)

lemma firstQuoted_quotedAttr: "firstQuoted name P attrs v \<Longrightarrow> quotedAttr name P attrs v"
proof -
  assume "firstQuoted name P attrs v"
  then obtain n where "quotedAt name P (take n attrs) (drop n attrs) v"
    unfolding firstQuoted_def by blast
  then obtain nm ws1 ws2 q1 q2 post where
    d: "drop n attrs = nm @ ws1 @ [0x3D] @ ws2 @ [q1] @ v @ [q2] @ post"
       "map canon nm = map canon name" "take n attrs = [] \<or> \<not> isWordChar (last (take n attrs))"
       "list_all isSpace ws1" "list_all isSpace ws2" "isQuote q1" "isQuote q2"
       "v \<noteq> []" "list_all P v"
    unfolding quotedAt_def by blast
  have "attrs = take n attrs @ nm @ ws1 @ [0x3D] @ ws2 @ [q1] @ v @ [q2] @ post"
    using d(1) by (metis append_take_drop_id)
  with d(2-9) show ?thesis unfolding quotedAttr_def by blast
qed

lemma looksLarge_first:
  "looksLarge attrs \<longleftrightarrow>
      (\<exists>v. firstQuoted (lit ''src'') notQuote attrs v \<and> rasterName (toLowerCase v)) \<and>
      ((\<exists>ds. firstQuoted (lit ''width'') isDigit attrs ds \<and> parseInt ds > 1000) \<or>
       (\<exists>ds. firstQuoted (lit ''height'') isDigit attrs ds \<and> parseInt ds > 1000))"
  unfolding looksLarge_eq srcMatch_iff widthMatch_iff heightMatch_iff ..

subsection \<open>Inline bytes\<close>





lemma rx_img_Nil: "rx_img (p, []) = None"
  by (simp add: rx_img_def lit_def)







subsection \<open>The frame of a call\<close>

lemma matchAllAt_0: "matchAllAt m 0 s = matchAll m s"
  by (simp add: matchAllAt_def matchAll_def)

lemma scriptStmts_step:
  "scriptStmts m s =
     (case scriptStep m (var_totalScripts s, var_blockingScripts s, var_inlineBytes s) of
        (t, b, i) \<Rightarrow> s\<lparr>var_totalScripts := t, var_blockingScripts := b, var_inlineBytes := i\<rparr>)"
  by (simp add: scriptStmts_def scriptStep_def Let_def)

lemma imgStmts_step:
  "imgStmts a s =
     (case imgStep a (var_totalImages s, var_noLazy s, var_suspectedLarge s) of
        (t, n, l) \<Rightarrow> s\<lparr>var_totalImages := t, var_noLazy := n, var_suspectedLarge := l\<rparr>)"
  by (simp add: imgStmts_def imgStep_def Let_def)

lemma fold_scriptStmts:
  "fold scriptStmts ms s =
     (case fold scriptStep ms (var_totalScripts s, var_blockingScripts s, var_inlineBytes s) of
        (t, b, i) \<Rightarrow> s\<lparr>var_totalScripts := t, var_blockingScripts := b, var_inlineBytes := i\<rparr>)"
proof (induction ms arbitrary: s)
  case Nil
  then show ?case by simp
next
  case (Cons m ms)
  obtain t b i where st: "scriptStep m (var_totalScripts s, var_blockingScripts s, var_inlineBytes s)
      = (t, b, i)"
    by (cases "scriptStep m (var_totalScripts s, var_blockingScripts s, var_inlineBytes s)") auto
  have "fold scriptStmts (m # ms) s = fold scriptStmts ms (scriptStmts m s)"
    by simp
  also have "\<dots> = (case fold scriptStep ms (t, b, i) of
        (t', b', i') \<Rightarrow> (scriptStmts m s)\<lparr>var_totalScripts := t', var_blockingScripts := b',
           var_inlineBytes := i'\<rparr>)"
    unfolding Cons.IH by (simp add: scriptStmts_step st)
  also have "\<dots> = (case fold scriptStep ms (t, b, i) of
        (t', b', i') \<Rightarrow> s\<lparr>var_totalScripts := t', var_blockingScripts := b',
           var_inlineBytes := i'\<rparr>)"
    by (simp add: scriptStmts_step st split: prod.splits)
  finally show ?case by (simp add: st)
qed

lemma fold_imgStmts:
  "fold imgStmts ms s =
     (case fold imgStep ms (var_totalImages s, var_noLazy s, var_suspectedLarge s) of
        (t, n, l) \<Rightarrow> s\<lparr>var_totalImages := t, var_noLazy := n, var_suspectedLarge := l\<rparr>)"
proof (induction ms arbitrary: s)
  case Nil
  then show ?case by simp
next
  case (Cons m ms)
  obtain t n l where st: "imgStep m (var_totalImages s, var_noLazy s, var_suspectedLarge s)
      = (t, n, l)"
    by (cases "imgStep m (var_totalImages s, var_noLazy s, var_suspectedLarge s)") auto
  have "fold imgStmts (m # ms) s = fold imgStmts ms (imgStmts m s)"
    by simp
  also have "\<dots> = (case fold imgStep ms (t, n, l) of
        (t', n', l') \<Rightarrow> (imgStmts m s)\<lparr>var_totalImages := t', var_noLazy := n',
           var_suspectedLarge := l'\<rparr>)"
    unfolding Cons.IH by (simp add: imgStmts_step st)
  also have "\<dots> = (case fold imgStep ms (t, n, l) of
        (t', n', l') \<Rightarrow> s\<lparr>var_totalImages := t', var_noLazy := n',
           var_suspectedLarge := l'\<rparr>)"
    by (simp add: imgStmts_step st split: prod.splits)
  finally show ?case by (simp add: st)
qed

lemma extractStmts_counts:
  assumes "scriptCounts html = (ts, bs, ib)" and "imageCounts html = (ti, nl, sl)"
  shows "extractStmts html s =
     s\<lparr>re_script_lastIndex := 0, re_img_lastIndex := 0,
       var_scriptMatches := scriptMatches html, var_imgMatches := imgMatches html,
       var_totalScripts := ts, var_blockingScripts := bs, var_inlineBytes := ib,
       var_totalImages := ti, var_noLazy := nl, var_suspectedLarge := sl\<rparr>"
proof -
  have a: "fold scriptStep (matchAll rx_script html) (0, 0, 0) = (ts, bs, ib)"
    using assms(1) by (simp add: scriptCounts_def scriptMatches_def)
  have b: "fold imgStep (matchAll rx_img html) (0, 0, 0) = (ti, nl, sl)"
    using assms(2) by (simp add: imageCounts_def imgMatches_def)
  show ?thesis
    by (simp add: extractStmts_def Let_def matchAllAt_0 fold_scriptStmts fold_imgStmts a b
        scriptMatches_def imgMatches_def)
qed

lemma if_perf: "(if c then s\<lparr>var_perfScore := a\<rparr> else s) =
    s\<lparr>var_perfScore := (if c then a else var_perfScore s)\<rparr>"
  by simp

lemma if_notes: "(if c then s\<lparr>var_notes := a\<rparr> else s) =
    s\<lparr>var_notes := (if c then a else var_notes s)\<rparr>"
  "(if c then s\<lparr>var_notes := a\<rparr> else s\<lparr>var_notes := b\<rparr>) =
    s\<lparr>var_notes := (if c then a else b)\<rparr>"
  by simp_all

lemma scoreStmts_perfScore:
  "scoreStmts s = s\<lparr>var_perfScore := perfScore (var_totalScripts s) (var_blockingScripts s)
      (var_inlineBytes s) (var_totalImages s) (var_noLazy s) (var_suspectedLarge s)\<rparr>"
proof -
  have "scoreStmts s = s\<lparr>var_perfScore := var_perfScore (scoreStmts s)\<rparr>"
    unfolding scoreStmts_def by (simp add: Let_def if_perf split del: if_split cong: if_cong)
  moreover have "var_perfScore (scoreStmts s) = perfScore (var_totalScripts s)
      (var_blockingScripts s) (var_inlineBytes s) (var_totalImages s) (var_noLazy s)
      (var_suspectedLarge s)"
    unfolding scoreStmts_def perfScore_def by (simp add: Let_def if_perf split del: if_split cong: if_cong)
  ultimately show ?thesis by simp
qed

lemma noteStmts_buildNotes:
  "noteStmts s = s\<lparr>var_notes := buildNotes (var_totalScripts s) (var_blockingScripts s)
      (var_inlineBytes s) (var_totalImages s) (var_noLazy s) (var_suspectedLarge s)\<rparr>"
proof -
  have "noteStmts s = s\<lparr>var_notes := var_notes (noteStmts s)\<rparr>"
    unfolding noteStmts_def by (simp add: Let_def if_notes split del: if_split cong: if_cong)
  moreover have "var_notes (noteStmts s) = buildNotes (var_totalScripts s)
      (var_blockingScripts s) (var_inlineBytes s) (var_totalImages s) (var_noLazy s)
      (var_suspectedLarge s)"
    unfolding noteStmts_def buildNotes_def by (simp add: Let_def if_notes split del: if_split cong: if_cong)
  ultimately show ?thesis by simp
qed


lemma run_analyse: "fst (run u html s) = analyse u html"
proof -
  obtain ts bs ib where sc: "scriptCounts html = (ts, bs, ib)"
    by (cases "scriptCounts html") auto
  obtain ti nl sl where ic: "imageCounts html = (ti, nl, sl)"
    by (cases "imageCounts html") auto
  show ?thesis
    by (simp add: run_def Let_def extractStmts_counts [OF sc ic] scoreStmts_perfScore
        noteStmts_buildNotes returned_def analyse_fields [OF sc ic] inlineKB_def)
qed

lemma invoke_ok:
  "ok status \<Longrightarrow> fst (invoke u (Response status (Inr html)) s) = Inr (analyse u html)"
  using run_analyse [of u html s] by (auto simp: invoke_def split: prod.splits)

section \<open>The scorer\<close>

text \<open>
  Claim C1. The score of a page is a function of its six counts, and for all natural
  numbers that function is 100 minus the sum of the six penalties, and 0 when that is
  negative. The penalties are
  \<open>(totalScripts - 10) * 2\<close> above 10 scripts, \<open>(blockingScripts - 5) * 4\<close> above 5
  blocking scripts, 15 above 50000 inline bytes, 20 more above 150000, 10 when there are
  images and more than half of them are not lazy, and \<open>suspectedLarge * 5\<close>.
\<close>

theorem perfScore_penalties:
  "perfScore nScripts nBlocking inlineBytes nImages noLazy suspectedLarge =
     max 0 (100 -
       ((if nScripts > 10 then (int nScripts - 10) * 2 else 0) +
        (if nBlocking > 5 then (int nBlocking - 5) * 4 else 0) +
        (if inlineBytes > 50000 then 15 else 0) +
        (if inlineBytes > 150000 then 20 else 0) +
        (if nImages > 0 \<and> (of_nat noLazy / of_nat nImages :: rat) > 1 / 2
         then 10 else 0) +
        (if suspectedLarge > 0 then int suspectedLarge * 5 else 0))) \<and>
   performanceSmellScore (analyse u html) =
     (case scriptCounts html of (nScripts, nBlocking, inlineBytes) \<Rightarrow>
      case imageCounts html of (nImages, noLazy, suspectedLarge) \<Rightarrow>
        perfScore nScripts nBlocking inlineBytes nImages noLazy suspectedLarge)"
proof -
  obtain ts bs ib where s: "scriptCounts html = (ts, bs, ib)"
    by (cases "scriptCounts html") auto
  obtain ti nl sl where i: "imageCounts html = (ti, nl, sl)"
    by (cases "imageCounts html") auto
  have a: "performanceSmellScore (analyse u html) =
     (case scriptCounts html of (nScripts, nBlocking, inlineBytes) \<Rightarrow>
      case imageCounts html of (nImages, noLazy, suspectedLarge) \<Rightarrow>
        perfScore nScripts nBlocking inlineBytes nImages noLazy suspectedLarge)"
    by (simp add: analyse_fields [OF s i] s i)
  have b: "perfScore nScripts nBlocking inlineBytes nImages noLazy suspectedLarge =
     max 0 (100 -
       ((if nScripts > 10 then (int nScripts - 10) * 2 else 0) +
        (if nBlocking > 5 then (int nBlocking - 5) * 4 else 0) +
        (if inlineBytes > 50000 then 15 else 0) +
        (if inlineBytes > 150000 then 20 else 0) +
        (if nImages > 0 \<and> (of_nat noLazy / of_nat nImages :: rat) > 1 / 2
         then 10 else 0) +
        (if suspectedLarge > 0 then int suspectedLarge * 5 else 0)))"
    by (simp add: perfScore_def Let_def max_def)
  show ?thesis
    using a b by (simp only: simp_thms)
qed

theorem perfScore_penalties_witness:
  "perfScore 15 15 0 0 0 0 = 50 \<and> perfScore 12 0 200000 4 3 2 = 41 \<and>
   perfScore 0 0 0 0 0 30 = 0"
  using perfScore_penalties [of 15 15 0 0 0 0 "[]" "[]"]
    perfScore_penalties [of 12 0 200000 4 3 2 "[]" "[]"]
    perfScore_penalties [of 0 0 0 0 0 30 "[]" "[]"]
  by simp

text \<open>
  Claim C2. For every HTML text, the field \<open>performanceSmellScore\<close> of the result is
  an integer from 0 to 100.
\<close>

theorem performanceSmellScore_range:
  "0 \<le> performanceSmellScore (analyse u html) \<and> performanceSmellScore (analyse u html) \<le> 100"
proof -
  obtain ts bs ib where s: "scriptCounts html = (ts, bs, ib)"
    by (cases "scriptCounts html") auto
  obtain ti nl sl where i: "imageCounts html = (ti, nl, sl)"
    by (cases "imageCounts html") auto
  show ?thesis
    by (simp add: analyse_fields [OF s i] perfScore_range)
qed

section \<open>The counts\<close>

text \<open>
  Claim C10. For every HTML text the counts of the result satisfy
  \<open>blockingScripts \<le> totalScripts\<close>, \<open>imagesMissingLazyLoad \<le> totalImages\<close> and
  \<open>suspectedLargeImages \<le> totalImages\<close>.
\<close>

theorem counts_bounded:
  "blockingScripts (analyse u html) \<le> totalScripts (analyse u html) \<and>
   imagesMissingLazyLoad (analyse u html) \<le> totalImages (analyse u html) \<and>
   suspectedLargeImages (analyse u html) \<le> totalImages (analyse u html)"
  by (simp add: analyse_fields [OF scriptCounts_eq imageCounts_eq])

section \<open>Blocking scripts\<close>

text \<open>
  Claim C3. A matched script is counted as blocking exactly when its attribute text
  contains neither the token \<open>defer\<close> nor the token \<open>async\<close> (word boundaries, any
  case). The body of the script and its \<open>src\<close> play no part, so inline and external
  scripts are treated alike, and \<open>blockingScripts\<close> is the number of matched scripts
  whose attribute text contains neither token.
\<close>

theorem blocking_iff_neither_token:
  "fst (snd (scriptStep (attrs, body) (t, b, i))) =
     (if \<not> containsToken (lit ''defer'') attrs \<and> \<not> containsToken (lit ''async'') attrs
      then b + 1 else b) \<and>
   blockingScripts (analyse u html) =
     length (filter (\<lambda>(attrs, body).
         \<not> containsToken (lit ''defer'') attrs \<and> \<not> containsToken (lit ''async'') attrs)
       (scriptMatches html))"
proof -
  have "(\<lambda>m. \<not> hasDefer (fst m) \<and> \<not> hasAsync (fst m)) =
      (\<lambda>(attrs, body). \<not> containsToken (lit ''defer'') attrs \<and>
         \<not> containsToken (lit ''async'') attrs)"
    by (auto simp: hasDefer_iff hasAsync_iff)
  then show ?thesis
    by (simp add: analyse_fields [OF scriptCounts_eq imageCounts_eq] scriptStep_def Let_def
        hasDefer_iff hasAsync_iff case_prod_unfold)
qed

theorem blocking_iff_neither_token_witness:
  "length (filter (\<lambda>(attrs, body).
       \<not> containsToken (lit ''defer'') attrs \<and> \<not> containsToken (lit ''async'') attrs)
     (scriptMatches (lit ''<script defer></script><script src=x>a</SCRIPT>''))) = 1"
proof -
  have s: "scriptCounts (lit ''<script defer></script><script src=x>a</SCRIPT>'') = (2, 1, 1)"
    by (simp add: run_defs rx_defs char_defs)
  have i: "imageCounts (lit ''<script defer></script><script src=x>a</SCRIPT>'') = (0, 0, 0)"
    by (simp add: run_defs rx_defs char_defs)
  have "blockingScripts (analyse [] (lit ''<script defer></script><script src=x>a</SCRIPT>'')) = 1"
    by (simp add: analyse_fields [OF s i])
  then show ?thesis
    using blocking_iff_neither_token
      [of "[]" "[]" 0 0 0 "[]" "lit ''<script defer></script><script src=x>a</SCRIPT>''"]
    by simp
qed

section \<open>Images that look large\<close>

text \<open>
  Claim C4, amended. A matched image counts as suspected-large exactly when, in its
  attribute text, the leftmost match of a quoted \<open>src\<close> (at a word boundary \<open>src\<close> in
  any case, optional white space, \<open>=\<close>, optional white space, a quote, one or more code
  units that are not quotes, a quote) has a value that in lower case ends with \<open>.png\<close>,
  \<open>.jpg\<close> or \<open>.jpeg\<close>, and the leftmost match of a quoted \<open>width\<close> made of digits, or
  that of a quoted \<open>height\<close> made of digits, is a number above 1000. An image whose
  attribute text holds no quoted width or height made of digits never counts; the image
  with \<open>src="icon.svg" width="2000"\<close> does not count; and \<open>suspectedLargeImages\<close> is
  the number of matched images that count.
\<close>

theorem suspected_large_first_match:
  "(looksLarge attrs \<longleftrightarrow>
      (\<exists>v. firstQuoted (lit ''src'') notQuote attrs v \<and> rasterName (toLowerCase v)) \<and>
      ((\<exists>ds. firstQuoted (lit ''width'') isDigit attrs ds \<and> parseInt ds > 1000) \<or>
       (\<exists>ds. firstQuoted (lit ''height'') isDigit attrs ds \<and> parseInt ds > 1000))) \<and>
   ((\<forall>ds. \<not> quotedAttr (lit ''width'') isDigit attrs ds) \<and>
    (\<forall>ds. \<not> quotedAttr (lit ''height'') isDigit attrs ds) \<longrightarrow> \<not> looksLarge attrs) \<and>
   \<not> looksLarge (lit '' src='' @ [0x22] @ lit ''icon.svg'' @ [0x22] @
                   lit '' width='' @ [0x22] @ lit ''2000'' @ [0x22]) \<and>
   suspectedLargeImages (analyse u html) = length (filter looksLarge (imgMatches html))"
proof -
  have a: "\<not> looksLarge (lit '' src='' @ [0x22] @ lit ''icon.svg'' @ [0x22] @
                   lit '' width='' @ [0x22] @ lit ''2000'' @ [0x22])"
    by (simp add: run_defs rx_defs char_defs)
  have b: "suspectedLargeImages (analyse u html) = length (filter looksLarge (imgMatches html))"
    by (simp add: analyse_fields [OF scriptCounts_eq imageCounts_eq])
  have c: "\<not> looksLarge attrs"
    if "\<forall>ds. \<not> quotedAttr (lit ''width'') isDigit attrs ds"
      "\<forall>ds. \<not> quotedAttr (lit ''height'') isDigit attrs ds"
    using that looksLarge_first [of attrs] by (blast dest: firstQuoted_quotedAttr)
  show ?thesis
    using looksLarge_first [of attrs] a b c by blast
qed

theorem suspected_large_first_match_witness:
  "looksLarge (lit '' src='' @ [0x22] @ lit ''photo.JPG'' @ [0x22] @
               lit '' width='' @ [0x22] @ lit ''1200'' @ [0x22]) \<and>
   (\<exists>ds. firstQuoted (lit ''width'') isDigit
           (lit '' src='' @ [0x22] @ lit ''photo.JPG'' @ [0x22] @
            lit '' width='' @ [0x22] @ lit ''1200'' @ [0x22]) ds \<and> parseInt ds > 1000) \<and>
   looksLarge (lit '' src='' @ [0x22] @ lit ''a.png'' @ [0x22] @
               lit '' height='' @ [0x22] @ lit ''1001'' @ [0x22]) \<and>
   \<not> looksLarge (lit '' src='' @ [0x22] @ lit ''a.png'' @ [0x22] @
               lit '' height='' @ [0x22] @ lit ''1000'' @ [0x22]) \<and>
   \<not> looksLarge (lit '' src='' @ [0x22] @ lit ''a.png'' @ [0x22] @ lit '' width='' @ [0x22] @
               lit ''10'' @ [0x22] @ lit '' width='' @ [0x22] @ lit ''2000'' @ [0x22])"
proof -
  have l: "looksLarge (lit '' src='' @ [0x22] @ lit ''photo.JPG'' @ [0x22] @
               lit '' width='' @ [0x22] @ lit ''1200'' @ [0x22])"
    by (simp add: run_defs rx_defs char_defs)
  have h: "\<not> truthyAndOver1000 (heightVal (lit '' src='' @ [0x22] @ lit ''photo.JPG'' @ [0x22] @
               lit '' width='' @ [0x22] @ lit ''1200'' @ [0x22]))"
    by (simp add: run_defs rx_defs char_defs)
  have nh: "\<not> (\<exists>ds. firstQuoted (lit ''height'') isDigit
           (lit '' src='' @ [0x22] @ lit ''photo.JPG'' @ [0x22] @
            lit '' width='' @ [0x22] @ lit ''1200'' @ [0x22]) ds \<and> parseInt ds > 1000)"
    using h unfolding heightMatch_iff [symmetric]
    by (auto simp: truthyAndOver1000_def heightVal_def)
  have e: "looksLarge (lit '' src='' @ [0x22] @ lit ''a.png'' @ [0x22] @
               lit '' height='' @ [0x22] @ lit ''1001'' @ [0x22]) \<and>
   \<not> looksLarge (lit '' src='' @ [0x22] @ lit ''a.png'' @ [0x22] @
               lit '' height='' @ [0x22] @ lit ''1000'' @ [0x22]) \<and>
   \<not> looksLarge (lit '' src='' @ [0x22] @ lit ''a.png'' @ [0x22] @ lit '' width='' @ [0x22] @
               lit ''10'' @ [0x22] @ lit '' width='' @ [0x22] @ lit ''2000'' @ [0x22])"
    by (simp add: run_defs rx_defs char_defs)
  show ?thesis
    using l nh e suspected_large_first_match [of "lit '' src='' @ [0x22] @ lit ''photo.JPG'' @ [0x22] @
               lit '' width='' @ [0x22] @ lit ''1200'' @ [0x22]" "[]" "[]"]
    by blast
qed

text \<open>
  As the specification words it, on the attributes of the image, the property fails:
  the image with \<open>src="a.png" width="abc" data-width="5000"\<close> has a width that is not
  a number and no height, and the code counts it, because the pattern for the width
  also matches inside \<open>data-width\<close>.
\<close>

theorem suspected_large_counterexample:
  "looksLarge (lit '' src='' @ [0x22] @ lit ''a.png'' @ [0x22] @ lit '' width='' @ [0x22] @
        lit ''abc'' @ [0x22] @ lit '' data-width='' @ [0x22] @ lit ''5000'' @ [0x22]) \<and>
   \<not> claimedLarge (lit '' src='' @ [0x22] @ lit ''a.png'' @ [0x22] @ lit '' width='' @ [0x22] @
        lit ''abc'' @ [0x22] @ lit '' data-width='' @ [0x22] @ lit ''5000'' @ [0x22]) \<and>
   attrValue (lit ''width'') (lit '' src='' @ [0x22] @ lit ''a.png'' @ [0x22] @ lit '' width='' @
        [0x22] @ lit ''abc'' @ [0x22] @ lit '' data-width='' @ [0x22] @ lit ''5000'' @ [0x22]) =
     Some (lit ''abc'') \<and>
   attrValue (lit ''height'') (lit '' src='' @ [0x22] @ lit ''a.png'' @ [0x22] @ lit '' width='' @
        [0x22] @ lit ''abc'' @ [0x22] @ lit '' data-width='' @ [0x22] @ lit ''5000'' @ [0x22]) = None"
proof -
  have a: "looksLarge (lit '' src='' @ [0x22] @ lit ''a.png'' @ [0x22] @ lit '' width='' @ [0x22] @
        lit ''abc'' @ [0x22] @ lit '' data-width='' @ [0x22] @ lit ''5000'' @ [0x22])"
    by (simp add: run_defs rx_defs char_defs)
  have b: "attributes (lit '' src='' @ [0x22] @ lit ''a.png'' @ [0x22] @ lit '' width='' @ [0x22] @
        lit ''abc'' @ [0x22] @ lit '' data-width='' @ [0x22] @ lit ''5000'' @ [0x22]) =
      [(lit ''src'', lit ''a.png''), (lit ''width'', lit ''abc''), (lit ''data-width'', lit ''5000'')]"
    by (simp add: attributes_def lit_def isHtmlSpace_def isQuote_def)
  have w: "attrValue (lit ''width'') (lit '' src='' @ [0x22] @ lit ''a.png'' @ [0x22] @
        lit '' width='' @ [0x22] @ lit ''abc'' @ [0x22] @ lit '' data-width='' @ [0x22] @
        lit ''5000'' @ [0x22]) = Some (lit ''abc'')"
    unfolding attrValue_def b by (simp add: lit_def canon_def)
  have h: "attrValue (lit ''height'') (lit '' src='' @ [0x22] @ lit ''a.png'' @ [0x22] @
        lit '' width='' @ [0x22] @ lit ''abc'' @ [0x22] @ lit '' data-width='' @ [0x22] @
        lit ''5000'' @ [0x22]) = None"
    unfolding attrValue_def b by (simp add: lit_def canon_def)
  have c: "\<not> claimedLarge (lit '' src='' @ [0x22] @ lit ''a.png'' @ [0x22] @ lit '' width='' @
        [0x22] @ lit ''abc'' @ [0x22] @ lit '' data-width='' @ [0x22] @ lit ''5000'' @ [0x22])"
    unfolding claimedLarge_def w h by (simp add: numberOver1000_def lit_def isDigit_def)
  show ?thesis using a c w h by (simp only: simp_thms)
qed

section \<open>Inline bytes\<close>



section \<open>The notes\<close>

text \<open>
  Claim C6. The notes come in a fixed order: the script count; then the number of
  scripts without async/defer when there is one, else the note that most scripts appear
  async/defer; then, when there are inline bytes, their size in whole kilobytes; then
  \<open>noLazy/totalImages images missing loading="lazy".\<close> when there are images, else
  the note that none was detected; then, when there is one, the number of images that
  look large. There are between 2 and 5 notes, never none.
\<close>

theorem notes_order:
  assumes "scriptCounts html = (nScripts, nBlocking, inlineBytes)"
    and "imageCounts html = (nImages, noLazy, suspectedLarge)"
  shows "notes (analyse u html) =
           [showNat nScripts @ lit '' <script> tags detected.''] @
           [if nBlocking > 0
            then showNat nBlocking @
                 lit '' script(s) without async/defer (possible render-blockers).''
            else lit ''Most scripts appear async/defer '' @ [0x2705]] @
           (if inlineBytes > 0
            then [lit ''Inline JS total ~'' @
                  showInt (math_round (of_nat inlineBytes / 1024)) @ lit ''KB.'']
            else []) @
           [if nImages > 0
            then showNat noLazy @ lit ''/'' @ showNat nImages @
                 lit '' images missing loading='' @ [0x22] @ lit ''lazy'' @ [0x22] @ lit ''.''
            else lit ''No <img> tags detected.''] @
           (if suspectedLarge > 0
            then [showNat suspectedLarge @
                  lit '' image(s) look very large ( >1000px dimension hints ).'']
            else []) \<and>
         2 \<le> length (notes (analyse u html)) \<and> length (notes (analyse u html)) \<le> 5 \<and>
         notes (analyse u html) \<noteq> []"
  by (simp add: analyse_fields [OF assms] buildNotes_eq note_scripts_def note_blocking_def
      note_async_def note_inline_def note_lazy_def note_noimg_def note_large_def inlineKB_def)

theorem notes_order_witness:
  "notes (analyse [] (lit ''<script>x</script><img>'')) =
     [lit ''1 <script> tags detected.'',
      lit ''1 script(s) without async/defer (possible render-blockers).'',
      lit ''Inline JS total ~0KB.'',
      lit ''1/1 images missing loading='' @ [0x22] @ lit ''lazy'' @ [0x22] @ lit ''.'']"
proof -
  have s: "scriptCounts (lit ''<script>x</script><img>'') = (1, 1, 1)"
    by (simp add: run_defs rx_defs char_defs)
  have i: "imageCounts (lit ''<script>x</script><img>'') = (1, 1, 0)"
    by (simp add: run_defs rx_defs char_defs)
  have k: "math_round (1 / 1024) = 0"
    using inlineKB_div [of 1] by (simp add: inlineKB_def)
  have n: "showNat (Suc 0) = lit ''1''" "showNat 0 = lit ''0''"
    by (simp_all add: showNat.simps lit_def)
  show ?thesis
    using notes_order [OF s i, of "[]"]
    by (simp add: k n showInt_def lit_def)
qed

text \<open>
  Claim C9. For every HTML text there are at least 3 and at most 5 notes: the first is
  the script count, the second is one of the two notes on blocking scripts, and one of
  the two notes on images is always among them. Both bounds are reached: the empty page
  has 3 notes, and a page with an inline script and a large image has 5.
\<close>

theorem notes_at_least_three:
  "3 \<le> length (notes (analyse u html)) \<and> length (notes (analyse u html)) \<le> 5 \<and>
   notes (analyse u html) ! 0 = note_scripts (totalScripts (analyse u html)) \<and>
   notes (analyse u html) ! 1 =
     (if blockingScripts (analyse u html) > 0
      then note_blocking (blockingScripts (analyse u html)) else note_async) \<and>
   (if totalImages (analyse u html) > 0
    then note_lazy (imagesMissingLazyLoad (analyse u html)) (totalImages (analyse u html))
    else note_noimg) \<in> set (notes (analyse u html)) \<and>
   length (notes (analyse u [])) = 3 \<and>
   length (notes (analyse u (lit ''<script>x</script><img src='' @ [0x22] @ lit ''a.png'' @
     [0x22] @ lit '' width='' @ [0x22] @ lit ''2000'' @ [0x22] @ lit ''>''))) = 5"
proof -
  obtain ts bs ib where s: "scriptCounts html = (ts, bs, ib)"
    by (cases "scriptCounts html") auto
  obtain ti nl sl where i: "imageCounts html = (ti, nl, sl)"
    by (cases "imageCounts html") auto
  have s0: "scriptCounts [] = (0, 0, 0)" and i0: "imageCounts [] = (0, 0, 0)"
    by (simp_all add: run_defs rx_defs char_defs)
  have s5: "scriptCounts (lit ''<script>x</script><img src='' @ [0x22] @ lit ''a.png'' @
     [0x22] @ lit '' width='' @ [0x22] @ lit ''2000'' @ [0x22] @ lit ''>'') = (1, 1, 1)"
    by (simp add: run_defs rx_defs char_defs)
  have i5: "imageCounts (lit ''<script>x</script><img src='' @ [0x22] @ lit ''a.png'' @
     [0x22] @ lit '' width='' @ [0x22] @ lit ''2000'' @ [0x22] @ lit ''>'') = (1, 1, 1)"
    by (simp add: run_defs rx_defs char_defs)
  have a: "length (notes (analyse u [])) = 3"
    by (simp add: analyse_fields [OF s0 i0] buildNotes_eq)
  have b: "length (notes (analyse u (lit ''<script>x</script><img src='' @ [0x22] @
     lit ''a.png'' @ [0x22] @ lit '' width='' @ [0x22] @ lit ''2000'' @ [0x22] @ lit ''>''))) = 5"
    by (subst analyse_fields [OF s5 i5]) (simp add: buildNotes_eq)
  have c: "3 \<le> length (notes (analyse u html)) \<and> length (notes (analyse u html)) \<le> 5 \<and>
   notes (analyse u html) ! 0 = note_scripts (totalScripts (analyse u html)) \<and>
   notes (analyse u html) ! 1 =
     (if blockingScripts (analyse u html) > 0
      then note_blocking (blockingScripts (analyse u html)) else note_async) \<and>
   (if totalImages (analyse u html) > 0
    then note_lazy (imagesMissingLazyLoad (analyse u html)) (totalImages (analyse u html))
    else note_noimg) \<in> set (notes (analyse u html))"
    by (simp add: analyse_fields [OF s i] buildNotes_eq)
  show ?thesis
    using a b c by (simp only: simp_thms)
qed

section \<open>Fetching\<close>

text \<open>
  Claim C7. When the response has a status outside 200 to 299, the call fails with the
  error of line 20, a fetch failure that names the URL and the status, and returns no
  result, whatever the text of the response is: the text is not looked at.
\<close>

theorem non_ok_status_fails:
  assumes "\<not> ok status"
  shows "speed_heuristics_checker u (Response status text) =
           Inl (Error (lit ''Failed to fetch '' @ u @ lit '': '' @ showNat status)) \<and>
         (\<forall>r. speed_heuristics_checker u (Response status text) \<noteq> Inr r)"
  using assms by (simp add: speed_heuristics_checker_def)

theorem non_ok_status_fails_witness:
  "\<not> ok 404 \<and>
   speed_heuristics_checker (lit ''http://a'') (Response 404 (Inr (lit ''<img>''))) =
     Inl (Error (lit ''Failed to fetch http://a: 404''))"
proof -
  have h: "\<not> ok 404" by (simp add: ok_def)
  have n: "showNat 404 = lit ''404''" by (simp add: showNat.simps lit_def)
  show ?thesis
    using h non_ok_status_fails [OF h, of "lit ''http://a''" "Inr (lit ''<img>'')"]
    by (simp add: n lit_def)
qed

text \<open>
  Claim C8. The result of a call is a function of the URL and of the HTML text alone.
  Whatever frame a call starts on, two calls that fetch the same text from the same URL
  return the same result, field for field and note for note; so does a second call that
  starts on the frame the first one left; and the status of the response, among those
  from 200 to 299, plays no part. That result is the one the model without a frame gives.
\<close>

theorem repeated_calls_same_result:
  assumes "ok status1" and "ok status2"
  shows "fst (invoke u (Response status1 (Inr html)) s1) =
           fst (invoke u (Response status2 (Inr html)) s2) \<and>
         fst (invoke u (Response status2 (Inr html))
                (snd (invoke u (Response status1 (Inr html)) s1))) =
           fst (invoke u (Response status1 (Inr html)) s1) \<and>
         fst (invoke u (Response status1 (Inr html)) s1) = Inr (analyse u html)"
  by (simp add: invoke_ok [OF assms(1)] invoke_ok [OF assms(2)])

theorem repeated_calls_same_result_witness:
  "ok 200 \<and> ok 203 \<and>
   fst (invoke (lit ''http://a'') (Response 200 (Inr (lit ''<script>x</script><img>'')))
     \<lparr> re_script_lastIndex = 0, re_img_lastIndex = 0, var_scriptMatches = [],
       var_totalScripts = 0, var_blockingScripts = 0, var_inlineBytes = 0, var_imgMatches = [],
       var_totalImages = 0, var_noLazy = 0, var_suspectedLarge = 0, var_perfScore = 0,
       var_notes = [] \<rparr>) =
   fst (invoke (lit ''http://a'') (Response 203 (Inr (lit ''<script>x</script><img>'')))
     \<lparr> re_script_lastIndex = 17, re_img_lastIndex = 5, var_scriptMatches = [([], lit ''y'')],
       var_totalScripts = 12, var_blockingScripts = 7, var_inlineBytes = 200000,
       var_imgMatches = [lit '' src=b''], var_totalImages = 3, var_noLazy = 3,
       var_suspectedLarge = 2, var_perfScore = 41, var_notes = [lit ''old note''] \<rparr>)"
proof -
  have h1: "ok 200" and h2: "ok 203" by (simp_all add: ok_def)
  show ?thesis
    using h1 h2 repeated_calls_same_result [OF h1 h2, of "lit ''http://a''"
      "lit ''<script>x</script><img>''"
     "\<lparr> re_script_lastIndex = 0, re_img_lastIndex = 0, var_scriptMatches = [],
       var_totalScripts = 0, var_blockingScripts = 0, var_inlineBytes = 0, var_imgMatches = [],
       var_totalImages = 0, var_noLazy = 0, var_suspectedLarge = 0, var_perfScore = 0,
       var_notes = [] \<rparr>"
     "\<lparr> re_script_lastIndex = 17, re_img_lastIndex = 5, var_scriptMatches = [([], lit ''y'')],
       var_totalScripts = 12, var_blockingScripts = 7, var_inlineBytes = 200000,
       var_imgMatches = [lit '' src=b''], var_totalImages = 3, var_noLazy = 3,
       var_suspectedLarge = 2, var_perfScore = 41, var_notes = [lit ''old note''] \<rparr>"]
    by (simp only: simp_thms)
qed

end
